theory Spec2Isabelle
  imports
    Complex_Main
    "HOL-Library.AList"
    "HOL-Library.Char_ord"
    "HOL-Library.List_Lexorder"
begin

section \<open>Python values, errors and dictionaries\<close>

text \<open>
  The report filter of ARIBA (\<^verbatim>\<open>ariba/report_filter.py\<close>) works on dictionaries that map
  column names to values. A value is a string, an integer, a float or a flag object.
  Floats carry their exact rational value, or one of the three special values.
\<close>

datatype pyfloat = Fin rat | PosInf | NegInf | NaN

datatype pyval = VStr string | VInt int | VFloat pyfloat | VFlag int

datatype error =
    Error string
  | NameError string
  | KeyError
  | TypeError
  | AttributeError
  | AssertionError
  | ValueError
  | OverflowError

text \<open>
  A Python \<^verbatim>\<open>dict\<close> keeps its keys in insertion order: an association list with
  distinct keys. \<^verbatim>\<open>d[k] = v\<close> is \<^const>\<open>AList.update\<close> (in place for a key that is
  there, at the end for a new one), \<^verbatim>\<open>del d[k]\<close> is \<^const>\<open>AList.delete\<close> after the
  key has been found, and \<^verbatim>\<open>d[k]\<close> raises \<^verbatim>\<open>KeyError\<close> for a key that is absent.
\<close>

type_synonym ('k, 'v) dict = "('k \<times> 'v) list"

definition getitem :: "('k, 'v) dict \<Rightarrow> 'k \<Rightarrow> error + 'v" where
  "getitem d k = (case map_of d k of None \<Rightarrow> Inl KeyError | Some v \<Rightarrow> Inr v)"

definition delitem :: "('k, 'v) dict \<Rightarrow> 'k \<Rightarrow> error + ('k, 'v) dict" where
  "delitem d k = (case map_of d k of None \<Rightarrow> Inl KeyError | Some v \<Rightarrow> Inr (AList.delete k d))"

definition then_do :: "error + 'a \<Rightarrow> ('a \<Rightarrow> error + 'b) \<Rightarrow> error + 'b" where
  "then_do m f = (case m of Inl e \<Rightarrow> Inl e | Inr v \<Rightarrow> f v)"

text \<open>Python's \<^verbatim>\<open>a and b\<close> on booleans: \<^verbatim>\<open>b\<close> is evaluated only when \<^verbatim>\<open>a\<close> is true.\<close>

definition py_and :: "error + bool \<Rightarrow> error + bool \<Rightarrow> error + bool" where
  "py_and a b = (case a of Inl e \<Rightarrow> Inl e | Inr x \<Rightarrow> if x then b else Inr False)"

text \<open>
  \<^verbatim>\<open>x >= y\<close>: numbers compare by value (an integer with a float exactly, anything
  with NaN is false), strings by code points, every other pair raises \<^verbatim>\<open>TypeError\<close>.
\<close>

fun float_ge :: "pyfloat \<Rightarrow> pyfloat \<Rightarrow> bool" where
  "float_ge NaN y = False"
| "float_ge x NaN = False"
| "float_ge PosInf y = True"
| "float_ge x NegInf = True"
| "float_ge NegInf y = False"
| "float_ge x PosInf = False"
| "float_ge (Fin a) (Fin b) = (b \<le> a)"

fun py_ge :: "pyval \<Rightarrow> pyval \<Rightarrow> error + bool" where
  "py_ge (VInt a) (VInt b) = Inr (b \<le> a)"
| "py_ge (VInt a) (VFloat y) = Inr (float_ge (Fin (of_int a)) y)"
| "py_ge (VFloat x) (VInt b) = Inr (float_ge x (Fin (of_int b)))"
| "py_ge (VFloat x) (VFloat y) = Inr (float_ge x y)"
| "py_ge (VStr s) (VStr t) = Inr (t \<le> s)"
| "py_ge x y = Inl TypeError"

section \<open>What the module takes from outside\<close>

text \<open>
  The column tables of \<^verbatim>\<open>ariba.report\<close>, the membership test of \<^verbatim>\<open>ariba.flag.Flag\<close>
  and Python's conversions between strings and numbers are not part of
  \<^verbatim>\<open>report_filter.py\<close>. They are parameters of the model. A flag object is
  represented by the integer it was built from; \<open>flag_has env n name\<close> is the answer of
  \<^verbatim>\<open>Flag(n).has(name)\<close>, and \<open>str_of_flag env n\<close> is \<^verbatim>\<open>str(Flag(n))\<close>.
\<close>

record env =
  columns :: "string list"
  int_columns :: "string list"
  float_columns :: "string list"
  var_columns :: "string list"
  flag_has :: "int \<Rightarrow> string \<Rightarrow> bool"
  str_of_flag :: "int \<Rightarrow> string"
  int_of_str :: "string \<Rightarrow> int option"
  float_of_str :: "string \<Rightarrow> pyfloat option"
  float_of_int :: "int \<Rightarrow> pyfloat option"
  str_of_int :: "int \<Rightarrow> string"
  str_of_float :: "pyfloat \<Rightarrow> string"

section \<open>The filter object\<close>

type_synonym report_dict = "(string, pyval) dict"

type_synonym collection = "(pyval, (pyval, report_dict list) dict) dict"

text \<open>The attributes that \<^verbatim>\<open>ReportFilter.__init__\<close> sets.\<close>

record report_filter =
  report :: collection
  min_pc_ident :: pyval
  min_ref_base_assembled :: pyval
  ignore_not_has_known_variant :: bool
  exclude_flags :: "string list"

fun flag_passes_filter :: "env \<Rightarrow> pyval \<Rightarrow> string list \<Rightarrow> error + bool" where
  "flag_passes_filter E fl [] = Inr True"
| "flag_passes_filter E fl (f # fs) =
     (case fl of
        VFlag n \<Rightarrow> if flag_has E n f then Inr False else flag_passes_filter E fl fs
      | _ \<Rightarrow> Inl AttributeError)"

definition report_dict_passes_non_essential_filters ::
    "report_filter \<Rightarrow> report_dict \<Rightarrow> error + bool" where
  "report_dict_passes_non_essential_filters self d =
     (if ignore_not_has_known_variant self
      then then_do (getitem d ''has_known_var'') (\<lambda>v. Inr (v = VStr ''1''))
      else Inr True)"

definition report_dict_passes_essential_filters ::
    "env \<Rightarrow> report_filter \<Rightarrow> report_dict \<Rightarrow> error + bool" where
  "report_dict_passes_essential_filters E self d =
     py_and (then_do (getitem d ''flag'') (\<lambda>fl. flag_passes_filter E fl (exclude_flags self)))
       (py_and (then_do (getitem d ''pc_ident'') (\<lambda>v. py_ge v (min_pc_ident self)))
          (then_do (getitem d ''ref_base_assembled'')
             (\<lambda>v. py_ge v (min_ref_base_assembled self))))"

definition report_dict_passes_filters ::
    "env \<Rightarrow> report_filter \<Rightarrow> report_dict \<Rightarrow> error + bool" where
  "report_dict_passes_filters E self d =
     py_and (report_dict_passes_essential_filters E self d)
       (report_dict_passes_non_essential_filters self d)"

subsection \<open>Filtering one list of rows\<close>

text \<open>
  The loop of \<^verbatim>\<open>_filter_list_of_dicts\<close> appends every row to one of three lists. The
  state of the loop is the triple \<open>(pass_dicts, essential_dicts, fail_dicts)\<close>.
\<close>

fun sort_dicts ::
    "env \<Rightarrow> report_filter \<Rightarrow> report_dict list
      \<Rightarrow> report_dict list \<times> report_dict list \<times> report_dict list
      \<Rightarrow> error + (report_dict list \<times> report_dict list \<times> report_dict list)" where
  "sort_dicts E self [] acc = Inr acc"
| "sort_dicts E self (d # ds) (pass_dicts, essential_dicts, fail_dicts) =
     (case report_dict_passes_essential_filters E self d of
        Inl e \<Rightarrow> Inl e
      | Inr True \<Rightarrow>
          (case report_dict_passes_non_essential_filters self d of
             Inl e \<Rightarrow> Inl e
           | Inr True \<Rightarrow> sort_dicts E self ds (pass_dicts @ [d], essential_dicts, fail_dicts)
           | Inr False \<Rightarrow> sort_dicts E self ds (pass_dicts, essential_dicts @ [d], fail_dicts))
      | Inr False \<Rightarrow> sort_dicts E self ds (pass_dicts, essential_dicts, fail_dicts @ [d]))"

text \<open>\<^verbatim>\<open>for key in report.var_columns: new_d[key] = '.'\<close>\<close>

definition blank_var_columns :: "env \<Rightarrow> report_dict \<Rightarrow> report_dict" where
  "blank_var_columns E d = fold (\<lambda>key new_d. AList.update key (VStr ''.'') new_d) (var_columns E) d"

definition filter_list_of_dicts ::
    "env \<Rightarrow> report_filter \<Rightarrow> report_dict list \<Rightarrow> error + report_dict list" where
  "filter_list_of_dicts E self dicts_list =
     (if length dicts_list = 0 then Inr []
      else
        (case sort_dicts E self dicts_list ([], [], []) of
           Inl e \<Rightarrow> Inl e
         | Inr (pass_dicts, essential_dicts, fail_dicts) \<Rightarrow>
             if length pass_dicts = 0 then
               if \<not> (length fail_dicts + length essential_dicts > 0) then Inl AssertionError
               else if length essential_dicts > 0
                 then Inr (pass_dicts @ [blank_var_columns E (essential_dicts ! 0)])
                 else Inr pass_dicts
             else Inr pass_dicts))"

subsection \<open>The predicates of the specification\<close>

text \<open>
  A row satisfies a predicate when the method returns \<^verbatim>\<open>True\<close>. The methods raise on some
  rows (a row without the key, a flag that is excluded by no name together with a
  \<^verbatim>\<open>'.'\<close> in a numeric column). A row is classifiable when \<^verbatim>\<open>_report_dict_passes_filters\<close>
  returns a boolean for it; the loop of \<^verbatim>\<open>_filter_list_of_dicts\<close> evaluates the two
  predicates in the same order and with the same short cut.
\<close>

definition passes_essential :: "env \<Rightarrow> report_filter \<Rightarrow> report_dict \<Rightarrow> bool" where
  "passes_essential E self d \<longleftrightarrow> report_dict_passes_essential_filters E self d = Inr True"

definition passes_both :: "env \<Rightarrow> report_filter \<Rightarrow> report_dict \<Rightarrow> bool" where
  "passes_both E self d \<longleftrightarrow> report_dict_passes_filters E self d = Inr True"

definition classifiable :: "env \<Rightarrow> report_filter \<Rightarrow> report_dict \<Rightarrow> bool" where
  "classifiable E self d \<longleftrightarrow>
     (case report_dict_passes_filters E self d of Inl e \<Rightarrow> False | Inr b \<Rightarrow> True)"

subsection \<open>Filtering the whole report\<close>

text \<open>
  \<^verbatim>\<open>_filter_dicts\<close> runs three loops over \<^verbatim>\<open>self.report\<close>. The first replaces every list
  by its filtered list and collects the keys of the lists that became empty. Its state
  is the pair \<open>(report, keys_to_remove)\<close>; the keys it iterates over do not change while
  it runs. The two sets of the source are lists without repetition here, walked in
  the order of insertion (Python leaves the order of a set open; the deletions commute).
\<close>

type_synonym group_key = "pyval \<times> pyval"

fun filter_ctgs ::
    "env \<Rightarrow> report_filter \<Rightarrow> pyval \<Rightarrow> pyval list \<Rightarrow> collection \<times> group_key list
      \<Rightarrow> error + (collection \<times> group_key list)" where
  "filter_ctgs E self ref_name [] st = Inr st"
| "filter_ctgs E self ref_name (ctg_name # rest) (rep, keys_to_remove) =
     (case getitem rep ref_name of
        Inl e \<Rightarrow> Inl e
      | Inr ctgs \<Rightarrow>
          (case getitem ctgs ctg_name of
             Inl e \<Rightarrow> Inl e
           | Inr dicts_list \<Rightarrow>
               (case filter_list_of_dicts E self dicts_list of
                  Inl e \<Rightarrow> Inl e
                | Inr filtered \<Rightarrow>
                    filter_ctgs E self ref_name rest
                      (AList.update ref_name (AList.update ctg_name filtered ctgs) rep,
                       if length filtered = 0
                       then List.insert (ref_name, ctg_name) keys_to_remove
                       else keys_to_remove))))"

fun filter_refs ::
    "env \<Rightarrow> report_filter \<Rightarrow> pyval list \<Rightarrow> collection \<times> group_key list
      \<Rightarrow> error + (collection \<times> group_key list)" where
  "filter_refs E self [] st = Inr st"
| "filter_refs E self (ref_name # rest) (rep, keys_to_remove) =
     (case getitem rep ref_name of
        Inl e \<Rightarrow> Inl e
      | Inr ctgs \<Rightarrow>
          (case filter_ctgs E self ref_name (map fst ctgs) (rep, keys_to_remove) of
             Inl e \<Rightarrow> Inl e
           | Inr st \<Rightarrow> filter_refs E self rest st))"

fun remove_keys ::
    "group_key list \<Rightarrow> collection \<times> pyval list \<Rightarrow> error + (collection \<times> pyval list)" where
  "remove_keys [] st = Inr st"
| "remove_keys ((ref_name, ctg_name) # rest) (rep, refs_to_remove) =
     (case getitem rep ref_name of
        Inl e \<Rightarrow> Inl e
      | Inr ctgs \<Rightarrow>
          (case delitem ctgs ctg_name of
             Inl e \<Rightarrow> Inl e
           | Inr ctgs' \<Rightarrow>
               remove_keys rest
                 (AList.update ref_name ctgs' rep,
                  if length ctgs' = 0 then List.insert ref_name refs_to_remove
                  else refs_to_remove)))"

fun remove_refs :: "pyval list \<Rightarrow> collection \<Rightarrow> error + collection" where
  "remove_refs [] rep = Inr rep"
| "remove_refs (ref_name # rest) rep =
     (case delitem rep ref_name of Inl e \<Rightarrow> Inl e | Inr rep' \<Rightarrow> remove_refs rest rep')"

definition filter_dicts :: "env \<Rightarrow> report_filter \<Rightarrow> error + report_filter" where
  "filter_dicts E self =
     (case filter_refs E self (map fst (report self)) (report self, []) of
        Inl e \<Rightarrow> Inl e
      | Inr (rep, keys_to_remove) \<Rightarrow>
          (case remove_keys keys_to_remove (rep, []) of
             Inl e \<Rightarrow> Inl e
           | Inr (rep', refs_to_remove) \<Rightarrow>
               (case remove_refs refs_to_remove rep' of
                  Inl e \<Rightarrow> Inl e
                | Inr rep'' \<Rightarrow> Inr (self\<lparr>report := rep''\<rparr>))))"

section \<open>Reading and writing report lines\<close>

text \<open>
  \<^verbatim>\<open>line.split('\t')\<close>, \<^verbatim>\<open>'\t'.join(xs)\<close> and \<^verbatim>\<open>line.rstrip()\<close>. The characters that
  \<^verbatim>\<open>rstrip\<close> removes are the ones below 256 for which \<^verbatim>\<open>str.isspace\<close> holds.
\<close>

definition tab :: char where "tab = CHR 0x09"

definition newline :: char where "newline = CHR 0x0A"

fun split_tab :: "string \<Rightarrow> string list" where
  "split_tab [] = [[]]"
| "split_tab (c # cs) =
     (if c = tab then [] # split_tab cs
      else (case split_tab cs of [] \<Rightarrow> [[c]] | x # xs \<Rightarrow> (c # x) # xs))"

fun join_tab :: "string list \<Rightarrow> string" where
  "join_tab [] = []"
| "join_tab [x] = x"
| "join_tab (x # y # ys) = x @ tab # join_tab (y # ys)"

definition isspace :: "char \<Rightarrow> bool" where
  "isspace c \<longleftrightarrow>
     (of_char c :: nat) \<in> {0x09, 0x0A, 0x0B, 0x0C, 0x0D, 0x1C, 0x1D, 0x1E, 0x1F, 0x20, 0x85, 0xA0}"

definition rstrip :: "string \<Rightarrow> string" where
  "rstrip s = rev (dropWhile isspace (rev s))"

text \<open>
  \<^verbatim>\<open>int(v)\<close>, \<^verbatim>\<open>float(v)\<close> and \<^verbatim>\<open>str(v)\<close> on the values of a row. On strings they are the
  conversions of the environment; \<^verbatim>\<open>int\<close> of a float truncates towards zero.
\<close>

fun py_int :: "env \<Rightarrow> pyval \<Rightarrow> error + int" where
  "py_int E (VStr s) = (case int_of_str E s of None \<Rightarrow> Inl ValueError | Some n \<Rightarrow> Inr n)"
| "py_int E (VInt n) = Inr n"
| "py_int E (VFloat (Fin q)) = Inr (if 0 \<le> q then \<lfloor>q\<rfloor> else \<lceil>q\<rceil>)"
| "py_int E (VFloat NaN) = Inl ValueError"
| "py_int E (VFloat x) = Inl OverflowError"
| "py_int E (VFlag n) = Inl TypeError"

fun py_float :: "env \<Rightarrow> pyval \<Rightarrow> error + pyfloat" where
  "py_float E (VStr s) = (case float_of_str E s of None \<Rightarrow> Inl ValueError | Some x \<Rightarrow> Inr x)"
| "py_float E (VInt n) = (case float_of_int E n of None \<Rightarrow> Inl OverflowError | Some x \<Rightarrow> Inr x)"
| "py_float E (VFloat x) = Inr x"
| "py_float E (VFlag n) = Inl TypeError"

fun py_str :: "env \<Rightarrow> pyval \<Rightarrow> string" where
  "py_str E (VStr s) = s"
| "py_str E (VInt n) = str_of_int E n"
| "py_str E (VFloat x) = str_of_float E x"
| "py_str E (VFlag n) = str_of_flag E n"

text \<open>
  The two loops of \<^verbatim>\<open>_report_line_to_dict\<close>. The bare \<^verbatim>\<open>except\<close> catches whatever the
  conversion (or the lookup inside the \<^verbatim>\<open>try\<close>) raises; the \<^verbatim>\<open>assert\<close> then looks the
  key up again.
\<close>

fun int_loop :: "env \<Rightarrow> string list \<Rightarrow> report_dict \<Rightarrow> error + report_dict" where
  "int_loop E [] d = Inr d"
| "int_loop E (key # keys) d =
     (case then_do (getitem d key) (py_int E) of
        Inr n \<Rightarrow> int_loop E keys (AList.update key (VInt n) d)
      | Inl caught \<Rightarrow>
          (case getitem d key of
             Inl e \<Rightarrow> Inl e
           | Inr v \<Rightarrow> if v = VStr ''.'' then int_loop E keys d else Inl AssertionError))"

fun float_loop :: "env \<Rightarrow> string list \<Rightarrow> report_dict \<Rightarrow> error + report_dict" where
  "float_loop E [] d = Inr d"
| "float_loop E (key # keys) d =
     (case then_do (getitem d key) (py_float E) of
        Inr x \<Rightarrow> float_loop E keys (AList.update key (VFloat x) d)
      | Inl caught \<Rightarrow>
          (case getitem d key of
             Inl e \<Rightarrow> Inl e
           | Inr v \<Rightarrow> if v = VStr ''.'' then float_loop E keys d else Inl AssertionError))"

text \<open>\<^verbatim>\<open>dict(zip(report.columns, data))\<close>: a later pair overwrites an earlier one with its key.\<close>

definition dict_zip :: "string list \<Rightarrow> string list \<Rightarrow> report_dict" where
  "dict_zip ks vs = fold (\<lambda>(k, v) d. AList.update k (VStr v) d) (zip ks vs) []"

text \<open>The result is \<open>Inr None\<close> where the method returns \<^verbatim>\<open>None\<close>.\<close>

definition report_line_to_dict :: "env \<Rightarrow> string \<Rightarrow> error + report_dict option" where
  "report_line_to_dict E line =
     (let data = split_tab line in
      if length data \<noteq> length (columns E) then Inr None
      else
        then_do (int_loop E (int_columns E) (dict_zip (columns E) data)) (\<lambda>d.
        then_do (float_loop E (float_columns E) d) (\<lambda>d.
        then_do (getitem d ''flag'') (\<lambda>v.
        then_do (py_int E v) (\<lambda>n.
          Inr (Some (AList.update ''flag'' (VFlag n) d)))))))"

fun str_values :: "env \<Rightarrow> report_dict \<Rightarrow> string list \<Rightarrow> error + string list" where
  "str_values E report_dict [] = Inr []"
| "str_values E report_dict (x # xs) =
     (case getitem report_dict x of
        Inl e \<Rightarrow> Inl e
      | Inr v \<Rightarrow>
          (case str_values E report_dict xs of
             Inl e \<Rightarrow> Inl e
           | Inr rest \<Rightarrow> Inr (py_str E v # rest)))"

definition dict_to_report_line :: "env \<Rightarrow> report_dict \<Rightarrow> error + string" where
  "dict_to_report_line E report_dict =
     then_do (str_values E report_dict (columns E)) (\<lambda>xs. Inr (join_tab xs))"

subsection \<open>Loading a report\<close>

text \<open>
  The file is the list of the lines that iterating over it yields, each with its line
  end. The body of the \<^verbatim>\<open>else\<close> branch that files a row under its reference and contig:
\<close>

definition add_line_dict :: "collection \<Rightarrow> report_dict \<Rightarrow> error + collection" where
  "add_line_dict report_dict line_dict =
     then_do (getitem line_dict ''ref_name'') (\<lambda>ref_name.
     then_do (getitem line_dict ''ctg'') (\<lambda>ctg_name.
       let report_dict1 =
             (if map_of report_dict ref_name = None then AList.update ref_name [] report_dict
              else report_dict)
       in then_do (getitem report_dict1 ref_name) (\<lambda>ctgs.
            let ctgs1 =
                  (if map_of ctgs ctg_name = None then AList.update ctg_name [] ctgs else ctgs)
            in then_do (getitem ctgs1 ctg_name) (\<lambda>rows.
                 Inr (AList.update ref_name
                        (AList.update ctg_name (rows @ [line_dict]) ctgs1) report_dict1)))))"

definition expected_first_line :: "env \<Rightarrow> string" where
  "expected_first_line E = CHR ''#'' # join_tab (columns E)"

text \<open>
  The message of the second \<^verbatim>\<open>raise\<close> is built from \<^verbatim>\<open>len(data)\<close>, and \<^verbatim>\<open>data\<close> is a local
  variable of \<^verbatim>\<open>_report_line_to_dict\<close>: no such name is bound in \<^verbatim>\<open>_load_report\<close>, in the
  module or among the builtins, so evaluating the message raises \<^verbatim>\<open>NameError\<close> before an
  \<^verbatim>\<open>Error\<close> object exists.
\<close>

fun load_lines :: "env \<Rightarrow> string list \<Rightarrow> bool \<Rightarrow> collection \<Rightarrow> error + collection" where
  "load_lines E [] first_line report_dict = Inr report_dict"
| "load_lines E (l # ls) first_line report_dict =
     (let line = rstrip l in
      if first_line then
        if line \<noteq> expected_first_line E
        then Inl (Error (''Error reading report file. Expected first line of file is'' @
                    [newline] @ expected_first_line E @ [newline] @ ''but got:'' @
                    [newline] @ line))
        else load_lines E ls False report_dict
      else
        (case report_line_to_dict E line of
           Inl e \<Rightarrow> Inl e
         | Inr None \<Rightarrow> Inl (NameError ''data'')
         | Inr (Some line_dict) \<Rightarrow>
             (case add_line_dict report_dict line_dict of
                Inl e \<Rightarrow> Inl e
              | Inr report_dict' \<Rightarrow> load_lines E ls False report_dict')))"

definition load_report :: "env \<Rightarrow> string list \<Rightarrow> error + collection" where
  "load_report E f = load_lines E f True []"

subsection \<open>Writing the report\<close>

text \<open>
  \<^verbatim>\<open>sorted\<close> on the keys of a dictionary: the order is \<^verbatim>\<open><\<close>, which is defined between two
  strings and between two numbers and raises \<^verbatim>\<open>TypeError\<close> otherwise. (With a NaN among
  the keys Python's order depends on the sorting algorithm.)
\<close>

fun py_lt :: "pyval \<Rightarrow> pyval \<Rightarrow> error + bool" where
  "py_lt (VInt a) (VInt b) = Inr (a < b)"
| "py_lt (VInt a) (VFloat y) = Inr (float_ge y (Fin (of_int a)) \<and> \<not> float_ge (Fin (of_int a)) y)"
| "py_lt (VFloat x) (VInt b) = Inr (float_ge (Fin (of_int b)) x \<and> \<not> float_ge x (Fin (of_int b)))"
| "py_lt (VFloat x) (VFloat y) = Inr (float_ge y x \<and> \<not> float_ge x y)"
| "py_lt (VStr s) (VStr t) = Inr (s < t)"
| "py_lt x y = Inl TypeError"

fun py_insort :: "pyval \<Rightarrow> pyval list \<Rightarrow> error + pyval list" where
  "py_insort x [] = Inr [x]"
| "py_insort x (y # ys) =
     (case py_lt y x of
        Inl e \<Rightarrow> Inl e
      | Inr False \<Rightarrow> Inr (x # y # ys)
      | Inr True \<Rightarrow> (case py_insort x ys of Inl e \<Rightarrow> Inl e | Inr r \<Rightarrow> Inr (y # r)))"

fun py_sorted :: "pyval list \<Rightarrow> error + pyval list" where
  "py_sorted [] = Inr []"
| "py_sorted (x # xs) = (case py_sorted xs of Inl e \<Rightarrow> Inl e | Inr r \<Rightarrow> py_insort x r)"

text \<open>The result of \<^verbatim>\<open>_write_report_tsv\<close> is the list of the lines printed to the file.\<close>

fun write_dicts :: "env \<Rightarrow> report_dict list \<Rightarrow> error + string list" where
  "write_dicts E [] = Inr []"
| "write_dicts E (d # ds) =
     (case dict_to_report_line E d of
        Inl e \<Rightarrow> Inl e
      | Inr line \<Rightarrow> (case write_dicts E ds of Inl e \<Rightarrow> Inl e | Inr rest \<Rightarrow> Inr (line # rest)))"

fun write_ctgs ::
    "env \<Rightarrow> (pyval, report_dict list) dict \<Rightarrow> pyval list \<Rightarrow> error + string list" where
  "write_ctgs E ctgs [] = Inr []"
| "write_ctgs E ctgs (ctg_name # rest) =
     (case getitem ctgs ctg_name of
        Inl e \<Rightarrow> Inl e
      | Inr report_dicts \<Rightarrow>
          (case write_dicts E report_dicts of
             Inl e \<Rightarrow> Inl e
           | Inr ls \<Rightarrow>
               (case write_ctgs E ctgs rest of Inl e \<Rightarrow> Inl e | Inr ls' \<Rightarrow> Inr (ls @ ls'))))"

fun write_refs :: "env \<Rightarrow> collection \<Rightarrow> pyval list \<Rightarrow> error + string list" where
  "write_refs E rep [] = Inr []"
| "write_refs E rep (ref_name # rest) =
     (case getitem rep ref_name of
        Inl e \<Rightarrow> Inl e
      | Inr ctgs \<Rightarrow>
          (case py_sorted (map fst ctgs) of
             Inl e \<Rightarrow> Inl e
           | Inr ctg_names \<Rightarrow>
               (case write_ctgs E ctgs ctg_names of
                  Inl e \<Rightarrow> Inl e
                | Inr ls \<Rightarrow>
                    (case write_refs E rep rest of
                       Inl e \<Rightarrow> Inl e
                     | Inr ls' \<Rightarrow> Inr (ls @ ls')))))"

definition write_report_tsv :: "env \<Rightarrow> report_filter \<Rightarrow> error + string list" where
  "write_report_tsv E self =
     (case py_sorted (map fst (report self)) of
        Inl e \<Rightarrow> Inl e
      | Inr ref_names \<Rightarrow>
          (case write_refs E (report self) ref_names of
             Inl e \<Rightarrow> Inl e
           | Inr ls \<Rightarrow> Inr ((CHR ''#'' # join_tab (columns E)) # ls)))"

section \<open>The filter run in closed form\<close>

text \<open>
  The definitions of this section are not translations of methods. They say what
  \<^verbatim>\<open>_filter_dicts\<close> computes, and the theorems below prove that it does: \<open>filtered\<close> is
  the list that \<^verbatim>\<open>_filter_list_of_dicts\<close> returns for a group, \<open>returns\<close> holds where it
  raises nothing, \<open>wf_report\<close> says that the association lists are dictionaries (no key
  twice), and \<open>filtered_report\<close> is the report after the run: every group filtered, the
  emptied groups deleted, and the reference names deleted whose contig dictionary became empty
  by that.
\<close>

definition filtered :: "env \<Rightarrow> report_filter \<Rightarrow> report_dict list \<Rightarrow> report_dict list" where
  "filtered E self g = (case filter_list_of_dicts E self g of Inl e \<Rightarrow> [] | Inr g' \<Rightarrow> g')"

definition returns :: "env \<Rightarrow> report_filter \<Rightarrow> report_dict list \<Rightarrow> bool" where
  "returns E self g = (case filter_list_of_dicts E self g of Inl e \<Rightarrow> False | Inr g' \<Rightarrow> True)"

definition filter_groups :: "env \<Rightarrow> report_filter \<Rightarrow> collection \<Rightarrow> collection" where
  "filter_groups E self rep = map (\<lambda>(r, ctgs). (r, map (\<lambda>(c, g). (c, filtered E self g)) ctgs)) rep"

definition emptied :: "env \<Rightarrow> report_filter \<Rightarrow> collection \<Rightarrow> group_key set" where
  "emptied E self rep =
     {(r, c) |r c ctgs g. (r, ctgs) \<in> set rep \<and> (c, g) \<in> set ctgs \<and> filtered E self g = []}"

definition all_return :: "env \<Rightarrow> report_filter \<Rightarrow> collection \<Rightarrow> bool" where
  "all_return E self rep \<longleftrightarrow> (\<forall>(r, ctgs)\<in>set rep. \<forall>(c, g)\<in>set ctgs. returns E self g)"

definition wf_report :: "collection \<Rightarrow> bool" where
  "wf_report rep \<longleftrightarrow> distinct (map fst rep) \<and> (\<forall>(r, ctgs)\<in>set rep. distinct (map fst ctgs))"

definition drop_keys :: "group_key set \<Rightarrow> collection \<Rightarrow> collection" where
  "drop_keys D rep = map (\<lambda>(r, ctgs). (r, filter (\<lambda>(c, g). (r, c) \<notin> D) ctgs)) rep"

definition prune_ctgs ::
    "env \<Rightarrow> report_filter \<Rightarrow> (pyval, report_dict list) dict \<Rightarrow> (pyval, report_dict list) dict" where
  "prune_ctgs E self ctgs =
     filter (\<lambda>(c, g'). g' \<noteq> []) (map (\<lambda>(c, g). (c, filtered E self g)) ctgs)"

definition filtered_report :: "env \<Rightarrow> report_filter \<Rightarrow> collection \<Rightarrow> collection" where
  "filtered_report E self rep =
     map (\<lambda>(r, ctgs). (r, prune_ctgs E self ctgs))
       (filter (\<lambda>(r, ctgs). ctgs = [] \<or> prune_ctgs E self ctgs \<noteq> []) rep)"

definition essential_keys_kept :: "env \<Rightarrow> bool" where
  "essential_keys_kept E \<longleftrightarrow>
     ''flag'' \<notin> set (var_columns E) \<and> ''pc_ident'' \<notin> set (var_columns E) \<and>
     ''ref_base_assembled'' \<notin> set (var_columns E)"

definition loaded_inv :: "collection \<Rightarrow> bool" where
  "loaded_inv rep \<longleftrightarrow>
     wf_report rep \<and> (\<forall>(r, ctgs)\<in>set rep. ctgs \<noteq> [] \<and> (\<forall>(c, g)\<in>set ctgs. g \<noteq> []))"


section \<open>An instance of the parameters\<close>

text \<open>
  A small schema and decimal conversions, to run the definitions on concrete rows.
\<close>

definition digit_char :: "nat \<Rightarrow> char" where
  "digit_char n = ''0123456789'' ! n"

function str_of_nat :: "nat \<Rightarrow> string" where
  "str_of_nat n = (if n < 10 then [digit_char n] else str_of_nat (n div 10) @ [digit_char (n mod 10)])"
  by pat_completeness auto
termination
  by (relation "measure id") auto

definition digit_val :: "char \<Rightarrow> nat option" where
  "digit_val c =
     (let code = (of_char c :: nat)
      in if 48 \<le> code \<and> code \<le> 57 then Some (code - 48) else None)"

fun nat_of_digits :: "nat \<Rightarrow> string \<Rightarrow> nat option" where
  "nat_of_digits acc [] = Some acc"
| "nat_of_digits acc (c # cs) =
     (case digit_val c of None \<Rightarrow> None | Some v \<Rightarrow> nat_of_digits (10 * acc + v) cs)"

definition nat_of_str :: "string \<Rightarrow> nat option" where
  "nat_of_str s = (if s = [] then None else nat_of_digits 0 s)"

definition dec_int_of_str :: "string \<Rightarrow> int option" where
  "dec_int_of_str s =
     (case s of
        c # r \<Rightarrow> if c = CHR ''-'' then map_option (\<lambda>n. - int n) (nat_of_str r)
                 else map_option int (nat_of_str s)
      | [] \<Rightarrow> None)"

definition dec_str_of_int :: "int \<Rightarrow> string" where
  "dec_str_of_int i = (if i < 0 then CHR ''-'' # str_of_nat (nat (- i)) else str_of_nat (nat i))"

definition example_flag_has :: "int \<Rightarrow> string \<Rightarrow> bool" where
  "example_flag_has n name =
     (if name = ''assembly_fail'' then (n div 64) mod 2 = 1
      else if name = ''ref_seq_choose_fail'' then (n div 1024) mod 2 = 1
      else False)"

definition example_float_of_str :: "string \<Rightarrow> pyfloat option" where
  "example_float_of_str s = map_option (\<lambda>i. Fin (of_int i)) (dec_int_of_str s)"

definition example_str_of_float :: "pyfloat \<Rightarrow> string" where
  "example_str_of_float x =
     (case x of Fin q \<Rightarrow> dec_str_of_int \<lfloor>q\<rfloor> | PosInf \<Rightarrow> ''inf'' | NegInf \<Rightarrow> ''-inf'' | NaN \<Rightarrow> ''nan'')"

definition example_env :: env where
  "example_env =
     \<lparr> columns = [''ref_name'', ''flag'', ''ref_base_assembled'', ''pc_ident'', ''ctg'',
                  ''has_known_var'', ''ref_ctg_change''],
       int_columns = [''ref_base_assembled''],
       float_columns = [''pc_ident''],
       var_columns = [''ref_ctg_change''],
       flag_has = example_flag_has,
       str_of_flag = dec_str_of_int,
       int_of_str = dec_int_of_str,
       float_of_str = example_float_of_str,
       float_of_int = (\<lambda>i. Some (Fin (of_int i))),
       str_of_int = dec_str_of_int,
       str_of_float = example_str_of_float \<rparr>"

definition example_row :: "string \<Rightarrow> int \<Rightarrow> pyval \<Rightarrow> pyval \<Rightarrow> string \<Rightarrow> string \<Rightarrow> string \<Rightarrow> report_dict" where
  "example_row ref fl rba pc ctg hkv chg =
     [(''ref_name'', VStr ref), (''flag'', VFlag fl), (''ref_base_assembled'', rba),
      (''pc_ident'', pc), (''ctg'', VStr ctg), (''has_known_var'', VStr hkv),
      (''ref_ctg_change'', VStr chg)]"

definition default_filter :: report_filter where
  "default_filter =
     \<lparr> report = [], min_pc_ident = VInt 90, min_ref_base_assembled = VInt 1,
       ignore_not_has_known_variant = True,
       exclude_flags = [''assembly_fail'', ''ref_seq_choose_fail''] \<rparr>"

definition R1 :: report_dict where "R1 = example_row ''ref1'' 27 (VInt 500) (VFloat (Fin 99)) ''ctg1'' ''0'' ''I42L''"
definition R2 :: report_dict where "R2 = example_row ''ref1'' 27 (VInt 500) (VFloat (Fin 98)) ''ctg1'' ''1'' ''A10T''"
definition R3 :: report_dict where "R3 = example_row ''ref1'' 64 (VStr ''.'') (VStr ''.'') ''ctg1'' ''0'' ''.''"

definition example_header :: string where
  "example_header = CHR ''#'' # join_tab (columns example_env) @ [newline]"

definition example_line :: "string list \<Rightarrow> string" where
  "example_line xs = join_tab xs @ [newline]"

definition lenient_filter :: report_filter where
  "lenient_filter = default_filter\<lparr>ignore_not_has_known_variant := False\<rparr>"

text \<open>
  A file of three rows in two groups, the report loaded from it and the report after the run:
  the group of \<open>ref1\<close> keeps its first row, demoted, and the group of \<open>ref2\<close> is deleted with
  its reference name.
\<close>

definition R4 :: report_dict where
  "R4 = example_row ''ref2'' 64 (VStr ''.'') (VStr ''.'') ''ctg9'' ''0'' ''.''"

definition R1_demoted :: report_dict where
  "R1_demoted = example_row ''ref1'' 27 (VInt 500) (VFloat (Fin 99)) ''ctg1'' ''0'' ''.''"

definition example_file :: "string list" where
  "example_file =
     [example_header,
      example_line [''ref1'', ''27'', ''500'', ''99'', ''ctg1'', ''0'', ''I42L''],
      example_line [''ref1'', ''64'', ''.'', ''.'', ''ctg1'', ''0'', ''.''],
      example_line [''ref2'', ''64'', ''.'', ''.'', ''ctg9'', ''0'', ''.'']]"

definition example_report :: collection where
  "example_report =
     [(VStr ''ref1'', [(VStr ''ctg1'', [R1, R3])]), (VStr ''ref2'', [(VStr ''ctg9'', [R4])])]"

definition loaded_filter :: report_filter where
  "loaded_filter = default_filter\<lparr>report := example_report\<rparr>"

definition filtered_filter :: report_filter where
  "filtered_filter = default_filter\<lparr>report := [(VStr ''ref1'', [(VStr ''ctg1'', [R1_demoted])])]\<rparr>"

text \<open>
  The table \<^verbatim>\<open>report.var_columns\<close> belongs to the module \<^verbatim>\<open>ariba.report\<close>, which is not
  among the sources here, and nothing in \<^verbatim>\<open>_filter_list_of_dicts\<close> keeps it from listing
  \<^verbatim>\<open>has_known_var\<close>: the published package lists that column among its variant columns.
  The second instance below differs from the first in this table only. With it the demoted
  row of \<open>ref1\<close> has the sentinel in \<^verbatim>\<open>has_known_var\<close> too. The list \<open>kept_fields\<close> names
  the columns that the filter reads or files rows under.
\<close>

definition variant_env :: env where
  "variant_env = example_env\<lparr>var_columns := [''has_known_var'', ''ref_ctg_change'']\<rparr>"

definition R1_blanked :: report_dict where
  "R1_blanked = example_row ''ref1'' 27 (VInt 500) (VFloat (Fin 99)) ''ctg1'' ''.'' ''.''"

definition blanked_filter :: report_filter where
  "blanked_filter = default_filter\<lparr>report := [(VStr ''ref1'', [(VStr ''ctg1'', [R1_blanked])])]\<rparr>"

definition kept_fields :: "string list" where
  "kept_fields = [''ref_name'', ''ctg'', ''flag'', ''pc_ident'', ''ref_base_assembled'']"



section \<open>Properties of the filter on one list of rows\<close>

lemma passes_both_iff:
  "passes_both E self d \<longleftrightarrow>
     passes_essential E self d \<and> report_dict_passes_non_essential_filters self d = Inr True"
  by (auto simp: passes_both_def passes_essential_def report_dict_passes_filters_def py_and_def
      split: sum.splits if_splits)

lemma classifiable_iff:
  "classifiable E self d \<longleftrightarrow>
     (\<exists>b. report_dict_passes_essential_filters E self d = Inr b \<and>
        (b \<longrightarrow> (\<exists>c. report_dict_passes_non_essential_filters self d = Inr c)))"
  by (auto simp: classifiable_def report_dict_passes_filters_def py_and_def
      split: sum.splits if_splits)

lemma sort_dicts_classifiable:
  "\<forall>d\<in>set ds. classifiable E self d \<Longrightarrow>
   sort_dicts E self ds (p, e, f) =
     Inr (p @ filter (passes_both E self) ds,
          e @ filter (\<lambda>d. passes_essential E self d \<and> \<not> passes_both E self d) ds,
          f @ filter (\<lambda>d. \<not> passes_essential E self d) ds)"
proof (induction ds arbitrary: p e f)
  case Nil
  then show ?case by simp
next
  case (Cons d ds)
  from Cons.prems have cd: "classifiable E self d" and rest: "\<forall>x\<in>set ds. classifiable E self x"
    by simp_all
  from cd obtain b where b: "report_dict_passes_essential_filters E self d = Inr b"
    and c: "b \<longrightarrow> (\<exists>c. report_dict_passes_non_essential_filters self d = Inr c)"
    unfolding classifiable_iff by blast
  show ?case
  proof (cases b)
    case False
    with b have "\<not> passes_essential E self d" "\<not> passes_both E self d"
      by (simp_all add: passes_essential_def passes_both_iff)
    with b False show ?thesis by (simp add: Cons.IH [OF rest])
  next
    case True
    with c obtain c' where c': "report_dict_passes_non_essential_filters self d = Inr c'" by blast
    from b True have pe: "passes_essential E self d" by (simp add: passes_essential_def)
    show ?thesis
      using b True c' pe by (cases c') (simp_all add: Cons.IH [OF rest] passes_both_iff)
  qed
qed

lemma sort_dicts_returns:
  "sort_dicts E self ds acc = Inr r \<Longrightarrow> d \<in> set ds \<Longrightarrow> classifiable E self d"
proof (induction ds arbitrary: acc)
  case Nil then show ?case by simp
next
  case (Cons x xs)
  obtain p e f where acc: "acc = (p, e, f)" by (cases acc)
  from Cons.prems show ?case
    unfolding acc
    by (auto simp: classifiable_iff split: sum.splits bool.splits dest: Cons.IH)
qed

lemma map_of_fold_update:
  "map_of (fold (\<lambda>key new_d. AList.update key v new_d) ks d) k =
     (if k \<in> set ks then Some v else map_of d k)"
  by (induction ks arbitrary: d) (simp_all add: update_conv')

lemma map_of_blank_var_columns:
  "map_of (blank_var_columns E d) k =
     (if k \<in> set (var_columns E) then Some (VStr ''.'') else map_of d k)"
  by (simp add: blank_var_columns_def map_of_fold_update)

lemma keys_fold_update:
  "set ks \<subseteq> fst ` set d \<Longrightarrow> map fst (fold (\<lambda>key new_d. AList.update key v new_d) ks d) = map fst d"
  by (induction ks arbitrary: d) (simp_all add: update_keys dom_update insert_absorb)

lemma filter_Cons_find: "filter P xs = d # ds \<Longrightarrow> find P xs = Some d"
  by (induction xs) (auto split: if_splits)

lemma filter_list_of_dicts_classifiable:
  assumes "\<forall>d\<in>set g. classifiable E self d"
  shows "filter_list_of_dicts E self g =
     (if filter (passes_both E self) g \<noteq> [] then Inr (filter (passes_both E self) g)
      else case filter (passes_essential E self) g of
             [] \<Rightarrow> Inr []
           | d # ds \<Rightarrow> Inr [blank_var_columns E d])"
proof (cases g)
  case Nil
  then show ?thesis by (simp add: filter_list_of_dicts_def)
next
  case (Cons x xs)
  have eo: "filter (passes_both E self) g = [] \<Longrightarrow>
      filter (\<lambda>d. passes_essential E self d \<and> \<not> passes_both E self d) g =
      filter (passes_essential E self) g"
    by (rule filter_cong) (auto simp: filter_empty_conv)
  have len: "filter (\<lambda>d. passes_essential E self d) g = [] \<Longrightarrow>
      filter (\<lambda>d. \<not> passes_essential E self d) g \<noteq> []"
    using Cons by (auto simp: filter_empty_conv)
  have "g \<noteq> []" using Cons by simp
  then show ?thesis
    using sort_dicts_classifiable [OF assms, of "[]" "[]" "[]"] eo len
    by (auto simp: filter_list_of_dicts_def split: list.splits)
qed

lemmas example_simps = example_env_def example_flag_has_def example_row_def default_filter_def
  R1_def R2_def R3_def passes_both_def passes_essential_def classifiable_def
  report_dict_passes_filters_def report_dict_passes_essential_filters_def
  report_dict_passes_non_essential_filters_def py_and_def then_do_def getitem_def

lemma R1_class: "report_dict_passes_essential_filters example_env default_filter R1 = Inr True"
  "report_dict_passes_non_essential_filters default_filter R1 = Inr False"
  by (simp_all add: example_simps)
lemma R2_class: "report_dict_passes_essential_filters example_env default_filter R2 = Inr True"
  "report_dict_passes_non_essential_filters default_filter R2 = Inr True"
  by (simp_all add: example_simps)
lemma R3_class: "report_dict_passes_essential_filters example_env default_filter R3 = Inr False"
  by (simp_all add: example_simps)

section \<open>The claims about one group\<close>

text \<open>
  Claim C1. In a group where no row satisfies both predicates and at least one satisfies
  the essential predicate (and every row is classifiable), the result is one row: the
  first row of the group that satisfies the essential predicate, with every column of
  \<^verbatim>\<open>report.var_columns\<close> set to \<^verbatim>\<open>'.'\<close> and every other column as it was.
\<close>

theorem fallback_single_demoted_row:
  assumes "\<forall>d\<in>set g. classifiable E self d"
    and "\<not> (\<exists>d\<in>set g. passes_both E self d)"
    and "\<exists>d\<in>set g. passes_essential E self d"
  shows "\<exists>d. find (passes_essential E self) g = Some d \<and>
           filter_list_of_dicts E self g = Inr [blank_var_columns E d] \<and>
           (\<forall>k. map_of (blank_var_columns E d) k =
              (if k \<in> set (var_columns E) then Some (VStr ''.'') else map_of d k))"
proof -
  from assms(3) obtain d ds where f: "filter (passes_essential E self) g = d # ds"
    by (cases "filter (passes_essential E self) g") (auto simp: filter_empty_conv)
  then have "find (passes_essential E self) g = Some d"
    by (rule filter_Cons_find)
  moreover have "filter (passes_both E self) g = []" using assms(2) by (auto simp: filter_empty_conv)
  ultimately show ?thesis
    using f by (simp add: filter_list_of_dicts_classifiable [OF assms(1)] map_of_blank_var_columns)
qed

theorem fallback_single_demoted_row_witness:
  "classifiable example_env default_filter R3 \<and>
   classifiable example_env default_filter R1 \<and>
   \<not> (\<exists>d\<in>set [R3, R1]. passes_both example_env default_filter d) \<and>
   (\<exists>d\<in>set [R3, R1]. passes_essential example_env default_filter d) \<and>
   filter_list_of_dicts example_env default_filter [R3, R1] =
     Inr [example_row ''ref1'' 27 (VInt 500) (VFloat (Fin 99)) ''ctg1'' ''0'' ''.'']"
proof -
  have c: "\<forall>d\<in>set [R3, R1]. classifiable example_env default_filter d"
    by (simp add: classifiable_def report_dict_passes_filters_def py_and_def R1_class R3_class)
  have b: "\<not> (\<exists>d\<in>set [R3, R1]. passes_both example_env default_filter d)"
    by (simp add: passes_both_iff passes_essential_def R1_class R3_class)
  have e: "\<exists>d\<in>set [R3, R1]. passes_essential example_env default_filter d"
    by (simp add: passes_essential_def R1_class)
  have bl: "blank_var_columns example_env R1 =
      example_row ''ref1'' 27 (VInt 500) (VFloat (Fin 99)) ''ctg1'' ''0'' ''.''"
    by (simp add: blank_var_columns_def example_env_def R1_def example_row_def)
  show ?thesis
    using fallback_single_demoted_row [OF c b e] c b e bl by (auto simp: passes_essential_def R1_class R3_class)
qed

text \<open>
  Claim C2. In a group where at least one row satisfies both predicates (and every row is
  classifiable), the result is exactly the rows satisfying both predicates, in their
  original order and unchanged.
\<close>

theorem pass_bucket_is_result:
  assumes "\<forall>d\<in>set g. classifiable E self d"
    and "\<exists>d\<in>set g. passes_both E self d"
  shows "filter_list_of_dicts E self g = Inr (filter (passes_both E self) g)"
  using assms(2) by (auto simp: filter_list_of_dicts_classifiable [OF assms(1)] filter_empty_conv)

theorem pass_bucket_is_result_witness:
  "classifiable example_env default_filter R1 \<and>
   classifiable example_env default_filter R2 \<and>
   classifiable example_env default_filter R3 \<and>
   (\<exists>d\<in>set [R1, R2, R3]. passes_both example_env default_filter d) \<and>
   filter_list_of_dicts example_env default_filter [R1, R2, R3] = Inr [R2]"
proof -
  have c: "\<forall>d\<in>set [R1, R2, R3]. classifiable example_env default_filter d"
    by (simp add: classifiable_def report_dict_passes_filters_def py_and_def R1_class R2_class R3_class)
  have b: "\<exists>d\<in>set [R1, R2, R3]. passes_both example_env default_filter d"
    by (simp add: passes_both_iff passes_essential_def R2_class)
  show ?thesis
    using pass_bucket_is_result [OF c b] c b by (simp add: passes_both_iff passes_essential_def R1_class R2_class R3_class)
qed

text \<open>
  Claim C10. With \<^verbatim>\<open>ignore_not_has_known_variant\<close> false the non-essential predicate is
  true of every row, and the result for a group of classifiable rows is exactly the
  rows that satisfy the essential predicate, in order and unchanged.
\<close>

theorem no_demotion_without_known_variant_flag:
  assumes "\<not> ignore_not_has_known_variant self"
  shows "(\<forall>d. report_dict_passes_non_essential_filters self d = Inr True) \<and>
         ((\<forall>d\<in>set g. classifiable E self d) \<longrightarrow>
            filter_list_of_dicts E self g = Inr (filter (passes_essential E self) g))"
proof -
  have ne: "report_dict_passes_non_essential_filters self d = Inr True" for d
    using assms by (simp add: report_dict_passes_non_essential_filters_def)
  then have pb: "passes_both E self = passes_essential E self"
    by (auto simp: passes_both_iff fun_eq_iff)
  have "filter_list_of_dicts E self g = Inr (filter (passes_essential E self) g)"
    if "\<forall>d\<in>set g. classifiable E self d"
    using filter_list_of_dicts_classifiable [OF that]
    by (simp add: pb split: list.splits)
  with ne show ?thesis by blast
qed

theorem no_demotion_without_known_variant_flag_witness:
  "\<not> ignore_not_has_known_variant lenient_filter \<and>
   classifiable example_env lenient_filter R1 \<and>
   classifiable example_env lenient_filter R2 \<and>
   classifiable example_env lenient_filter R3 \<and>
   filter_list_of_dicts example_env lenient_filter [R1, R2, R3] = Inr [R1, R2]"
proof -
  have f: "\<not> ignore_not_has_known_variant lenient_filter"
    by (simp add: lenient_filter_def default_filter_def)
  have e: "report_dict_passes_essential_filters example_env lenient_filter R1 = Inr True"
    "report_dict_passes_essential_filters example_env lenient_filter R2 = Inr True"
    "report_dict_passes_essential_filters example_env lenient_filter R3 = Inr False"
    by (simp_all add: example_simps lenient_filter_def)
  have ne: "report_dict_passes_non_essential_filters lenient_filter d = Inr True" for d
    by (simp add: report_dict_passes_non_essential_filters_def lenient_filter_def default_filter_def)
  have c: "\<forall>d\<in>set [R1, R2, R3]. classifiable example_env lenient_filter d"
    by (simp add: classifiable_def report_dict_passes_filters_def py_and_def e ne)
  from no_demotion_without_known_variant_flag [OF f, of "[R1, R2, R3]" example_env] c f show ?thesis
    by (simp add: passes_essential_def e)
qed

section \<open>Parsing a line and loading a file\<close>

lemma getitem_Inr_iff: "getitem d k = Inr v \<longleftrightarrow> map_of d k = Some v"
  by (simp add: getitem_def split: option.splits)

lemma getitem_Inl_iff: "getitem d k = Inl e \<longleftrightarrow> map_of d k = None \<and> e = KeyError"
  by (auto simp: getitem_def split: option.splits)

lemma map_of_dict_zip_aux:
  "distinct (map fst xs) \<Longrightarrow>
   map_of (fold (\<lambda>(k, v) d. AList.update k (VStr v) d) xs d0) k =
     (case map_of xs k of Some v \<Rightarrow> Some (VStr v) | None \<Rightarrow> map_of d0 k)"
proof (induction xs arbitrary: d0)
  case Nil
  then show ?case by simp
next
  case (Cons x xs)
  obtain a b where x: "x = (a, b)" by (cases x)
  from Cons.prems have d: "distinct (map fst xs)" and a: "a \<notin> fst ` set xs" by (auto simp: x)
  from a have "map_of xs a = None" by (simp add: map_of_eq_None_iff)
  then show ?case
    using Cons.IH [OF d] by (auto simp: x update_conv' split: option.splits)
qed

lemma map_of_dict_zip:
  "distinct ks \<Longrightarrow> length vs = length ks \<Longrightarrow>
   map_of (dict_zip ks vs) k = map_option VStr (map_of (zip ks vs) k)"
  by (simp add: dict_zip_def map_of_dict_zip_aux split: option.splits)

lemma dom_dict_zip:
  "distinct ks \<Longrightarrow> length vs = length ks \<Longrightarrow> dom (map_of (dict_zip ks vs)) = set ks"
proof -
  assume a: "distinct ks" "length vs = length ks"
  have "dom (map_of (dict_zip ks vs)) = dom (map_of (zip ks vs))"
    by (auto simp: map_of_dict_zip [OF a] dom_def)
  also have "\<dots> = set ks" using a by (simp add: dom_map_of_zip)
  finally show ?thesis .
qed

text \<open>The loops change nothing but the keys of their list, and keep the set of keys.\<close>

lemma int_loop_dom:
  "int_loop E keys d = Inr d' \<Longrightarrow> set keys \<subseteq> dom (map_of d) \<Longrightarrow> dom (map_of d') = dom (map_of d)"
proof (induction keys arbitrary: d)
  case Nil then show ?case by simp
next
  case (Cons key keys)
  from Cons.prems(2) obtain v where v: "map_of d key = Some v" by auto
  show ?case
  proof (cases "py_int E v")
    case (Inr n)
    have "dom (map_of (AList.update key (VInt n) d)) = dom (map_of d)"
      using v by (auto simp: update_conv')
    with Cons Inr v show ?thesis
      by (simp add: then_do_def getitem_def)
  next
    case (Inl e)
    with Cons v show ?thesis
      by (simp add: then_do_def getitem_def split: if_splits)
  qed
qed

lemma int_loop_other:
  "int_loop E keys d = Inr d' \<Longrightarrow> k \<notin> set keys \<Longrightarrow> map_of d' k = map_of d k"
proof (induction keys arbitrary: d)
  case Nil then show ?case by simp
next
  case (Cons key keys)
  then show ?case
    by (auto simp: then_do_def getitem_def update_conv' split: sum.splits option.splits if_splits)
qed

lemma int_loop_dot:
  "int_loop E keys d = Inr d' \<Longrightarrow> int_of_str E ''.'' = None \<Longrightarrow>
   map_of d k = Some (VStr ''.'') \<Longrightarrow> map_of d' k = Some (VStr ''.'')"
proof (induction keys arbitrary: d)
  case Nil then show ?case by simp
next
  case (Cons key keys)
  show ?case
  proof (cases "key = k")
    case True
    with Cons.prems have "int_loop E keys d = Inr d'"
      by (simp add: then_do_def getitem_def)
    then show ?thesis using Cons.IH Cons.prems by blast
  next
    case False
    with Cons.prems show ?thesis
      by (auto simp: then_do_def getitem_def update_conv' split: sum.splits option.splits if_splits
          intro: Cons.IH)
  qed
qed

lemma int_loop_error:
  "int_loop E keys d = Inl e \<Longrightarrow> set keys \<subseteq> dom (map_of d) \<Longrightarrow> e = AssertionError"
proof (induction keys arbitrary: d)
  case Nil then show ?case by simp
next
  case (Cons key keys)
  from Cons.prems(2) obtain v where v: "map_of d key = Some v" by auto
  show ?case
  proof (cases "py_int E v")
    case (Inr n)
    have "dom (map_of (AList.update key (VInt n) d)) = dom (map_of d)"
      using v by (auto simp: update_conv')
    with Cons Inr v show ?thesis
      by (simp add: then_do_def getitem_def)
  next
    case (Inl e')
    with Cons v show ?thesis
      by (simp add: then_do_def getitem_def split: if_splits)
  qed
qed

lemma int_loop_bad:
  "key \<in> set keys \<Longrightarrow> map_of d key = Some (VStr s) \<Longrightarrow> int_of_str E s = None \<Longrightarrow> s \<noteq> ''.'' \<Longrightarrow>
   set keys \<subseteq> dom (map_of d) \<Longrightarrow> int_loop E keys d = Inl AssertionError"
proof (induction keys arbitrary: d)
  case Nil then show ?case by simp
next
  case (Cons k keys)
  show ?case
  proof (cases "k = key")
    case True
    with Cons.prems show ?thesis by (simp add: then_do_def getitem_def)
  next
    case False
    from Cons.prems(5) obtain v where v: "map_of d k = Some v" by auto
    from False Cons.prems(1) have mem: "key \<in> set keys" by simp
    show ?thesis
    proof (cases "py_int E v")
      case (Inr n)
      have "dom (map_of (AList.update k (VInt n) d)) = dom (map_of d)"
        using v by (auto simp: update_conv')
      moreover have "map_of (AList.update k (VInt n) d) key = Some (VStr s)"
        using False Cons.prems(2) by (simp add: update_conv')
      ultimately have "int_loop E keys (AList.update k (VInt n) d) = Inl AssertionError"
        using Cons.IH [OF mem _ Cons.prems(3,4)] Cons.prems(5) by simp
      with Inr v show ?thesis by (simp add: then_do_def getitem_def)
    next
      case (Inl e')
      have "int_loop E keys d = Inl AssertionError"
        using Cons.IH [OF mem Cons.prems(2,3,4)] Cons.prems(5) by simp
      with Inl v show ?thesis by (simp add: then_do_def getitem_def)
    qed
  qed
qed

lemma float_loop_dom:
  "float_loop E keys d = Inr d' \<Longrightarrow> set keys \<subseteq> dom (map_of d) \<Longrightarrow> dom (map_of d') = dom (map_of d)"
proof (induction keys arbitrary: d)
  case Nil then show ?case by simp
next
  case (Cons key keys)
  from Cons.prems(2) obtain v where v: "map_of d key = Some v" by auto
  show ?case
  proof (cases "py_float E v")
    case (Inr n)
    have "dom (map_of (AList.update key (VFloat n) d)) = dom (map_of d)"
      using v by (auto simp: update_conv')
    with Cons Inr v show ?thesis
      by (simp add: then_do_def getitem_def)
  next
    case (Inl e)
    with Cons v show ?thesis
      by (simp add: then_do_def getitem_def split: if_splits)
  qed
qed

lemma float_loop_other:
  "float_loop E keys d = Inr d' \<Longrightarrow> k \<notin> set keys \<Longrightarrow> map_of d' k = map_of d k"
proof (induction keys arbitrary: d)
  case Nil then show ?case by simp
next
  case (Cons key keys)
  then show ?case
    by (auto simp: then_do_def getitem_def update_conv' split: sum.splits option.splits if_splits)
qed

lemma float_loop_dot:
  "float_loop E keys d = Inr d' \<Longrightarrow> float_of_str E ''.'' = None \<Longrightarrow>
   map_of d k = Some (VStr ''.'') \<Longrightarrow> map_of d' k = Some (VStr ''.'')"
proof (induction keys arbitrary: d)
  case Nil then show ?case by simp
next
  case (Cons key keys)
  show ?case
  proof (cases "key = k")
    case True
    with Cons.prems have "float_loop E keys d = Inr d'"
      by (simp add: then_do_def getitem_def)
    then show ?thesis using Cons.IH Cons.prems by blast
  next
    case False
    with Cons.prems show ?thesis
      by (auto simp: then_do_def getitem_def update_conv' split: sum.splits option.splits if_splits
          intro: Cons.IH)
  qed
qed

lemma float_loop_error:
  "float_loop E keys d = Inl e \<Longrightarrow> set keys \<subseteq> dom (map_of d) \<Longrightarrow> e = AssertionError"
proof (induction keys arbitrary: d)
  case Nil then show ?case by simp
next
  case (Cons key keys)
  from Cons.prems(2) obtain v where v: "map_of d key = Some v" by auto
  show ?case
  proof (cases "py_float E v")
    case (Inr n)
    have "dom (map_of (AList.update key (VFloat n) d)) = dom (map_of d)"
      using v by (auto simp: update_conv')
    with Cons Inr v show ?thesis
      by (simp add: then_do_def getitem_def)
  next
    case (Inl e')
    with Cons v show ?thesis
      by (simp add: then_do_def getitem_def split: if_splits)
  qed
qed

lemma float_loop_bad:
  "key \<in> set keys \<Longrightarrow> map_of d key = Some (VStr s) \<Longrightarrow> float_of_str E s = None \<Longrightarrow> s \<noteq> ''.'' \<Longrightarrow>
   set keys \<subseteq> dom (map_of d) \<Longrightarrow> float_loop E keys d = Inl AssertionError"
proof (induction keys arbitrary: d)
  case Nil then show ?case by simp
next
  case (Cons k keys)
  show ?case
  proof (cases "k = key")
    case True
    with Cons.prems show ?thesis by (simp add: then_do_def getitem_def)
  next
    case False
    from Cons.prems(5) obtain v where v: "map_of d k = Some v" by auto
    from False Cons.prems(1) have mem: "key \<in> set keys" by simp
    show ?thesis
    proof (cases "py_float E v")
      case (Inr n)
      have "dom (map_of (AList.update k (VFloat n) d)) = dom (map_of d)"
        using v by (auto simp: update_conv')
      moreover have "map_of (AList.update k (VFloat n) d) key = Some (VStr s)"
        using False Cons.prems(2) by (simp add: update_conv')
      ultimately have "float_loop E keys (AList.update k (VFloat n) d) = Inl AssertionError"
        using Cons.IH [OF mem _ Cons.prems(3,4)] Cons.prems(5) by simp
      with Inr v show ?thesis by (simp add: then_do_def getitem_def)
    next
      case (Inl e')
      have "float_loop E keys d = Inl AssertionError"
        using Cons.IH [OF mem Cons.prems(2,3,4)] Cons.prems(5) by simp
      with Inl v show ?thesis by (simp add: then_do_def getitem_def)
    qed
  qed
qed


lemma load_lines_append:
  "load_lines E (xs @ ys) fl rep =
     (case load_lines E xs fl rep of
        Inl e \<Rightarrow> Inl e
      | Inr rep' \<Rightarrow> load_lines E ys (fl \<and> xs = []) rep')"
  by (induction xs arbitrary: fl rep) (auto simp: Let_def split: sum.splits option.splits)

lemmas load_simps = example_env_def load_report_def expected_first_line_def rstrip_def isspace_def
  tab_def newline_def report_line_to_dict_def dict_zip_def then_do_def getitem_def
  add_line_dict_def dec_int_of_str_def nat_of_str_def digit_val_def example_float_of_str_def
  example_header_def example_line_def Let_def

lemma example_env_fields:
  "distinct (columns example_env)"
  "set (int_columns example_env) \<subseteq> set (columns example_env)"
  "set (float_columns example_env) \<subseteq> set (columns example_env)"
  "int_of_str example_env ''.'' = None"
  "float_of_str example_env ''.'' = None"
  by (simp_all add: load_simps)

text \<open>
  Claim C8. For a line with the right number of fields (column names distinct, the
  numeric columns among them, and \<^verbatim>\<open>'.'\<close> not a number for \<^verbatim>\<open>int\<close> and \<^verbatim>\<open>float\<close>): when the
  line parses, every integer or float column whose field is \<^verbatim>\<open>'.'\<close> holds the string
  \<^verbatim>\<open>'.'\<close>; a field of an integer column that \<^verbatim>\<open>int\<close> rejects and that is not \<^verbatim>\<open>'.'\<close>, and
  likewise a field of a float column, makes the method raise \<^verbatim>\<open>AssertionError\<close>.
\<close>

theorem sentinel_kept_or_assertion:
  assumes "distinct (columns E)"
    and "set (int_columns E) \<subseteq> set (columns E)"
    and "set (float_columns E) \<subseteq> set (columns E)"
    and "int_of_str E ''.'' = None"
    and "float_of_str E ''.'' = None"
    and "length (split_tab line) = length (columns E)"
  shows "(\<forall>d key. report_line_to_dict E line = Inr (Some d) \<and>
            key \<in> set (int_columns E) \<union> set (float_columns E) \<and>
            map_of (zip (columns E) (split_tab line)) key = Some ''.''
            \<longrightarrow> map_of d key = Some (VStr ''.'')) \<and>
         (\<forall>key s. key \<in> set (int_columns E) \<and>
            map_of (zip (columns E) (split_tab line)) key = Some s \<and>
            int_of_str E s = None \<and> s \<noteq> ''.''
            \<longrightarrow> report_line_to_dict E line = Inl AssertionError) \<and>
         (\<forall>key s. key \<in> set (float_columns E) \<and> key \<notin> set (int_columns E) \<and>
            map_of (zip (columns E) (split_tab line)) key = Some s \<and>
            float_of_str E s = None \<and> s \<noteq> ''.''
            \<longrightarrow> report_line_to_dict E line = Inl AssertionError)"
proof -
  let ?d0 = "dict_zip (columns E) (split_tab line)"
  have m0: "map_of ?d0 k = map_option VStr (map_of (zip (columns E) (split_tab line)) k)" for k
    using assms(1,6) by (simp add: map_of_dict_zip)
  have dom0: "dom (map_of ?d0) = set (columns E)"
    using assms(1,6) by (simp add: dom_dict_zip)
  have rl: "report_line_to_dict E line =
      then_do (int_loop E (int_columns E) ?d0) (\<lambda>d.
      then_do (float_loop E (float_columns E) d) (\<lambda>d.
      then_do (getitem d ''flag'') (\<lambda>v.
      then_do (py_int E v) (\<lambda>n. Inr (Some (AList.update ''flag'' (VFlag n) d))))))"
    using assms(6) by (simp add: report_line_to_dict_def Let_def)
  have a: "map_of d key = Some (VStr ''.'')"
    if ok: "report_line_to_dict E line = Inr (Some d)"
      and lit: "map_of (zip (columns E) (split_tab line)) key = Some ''.''" for d key
  proof -
    from ok obtain d1 d2 v n where
      i: "int_loop E (int_columns E) ?d0 = Inr d1" and
      f: "float_loop E (float_columns E) d1 = Inr d2" and
      g: "getitem d2 ''flag'' = Inr v" and
      p: "py_int E v = Inr n" and
      d: "d = AList.update ''flag'' (VFlag n) d2"
      unfolding rl then_do_def by (auto split: sum.splits)
    from lit have "map_of ?d0 key = Some (VStr ''.'')" by (simp add: m0)
    then have "map_of d1 key = Some (VStr ''.'')" using int_loop_dot [OF i assms(4)] by simp
    then have k2: "map_of d2 key = Some (VStr ''.'')" using float_loop_dot [OF f assms(5)] by simp
    have "key \<noteq> ''flag''"
    proof
      assume "key = ''flag''"
      with k2 g have "v = VStr ''.''" by (simp add: getitem_def)
      with p assms(4) show False by simp
    qed
    with k2 show ?thesis by (simp add: d update_conv')
  qed
  have b: "report_line_to_dict E line = Inl AssertionError"
    if "key \<in> set (int_columns E)"
      and "map_of (zip (columns E) (split_tab line)) key = Some s"
      and "int_of_str E s = None" and "s \<noteq> ''.''" for key s
  proof -
    have "int_loop E (int_columns E) ?d0 = Inl AssertionError"
      using that assms(2) by (intro int_loop_bad [where key = key and s = s]) (simp_all add: m0 dom0)
    then show ?thesis by (simp add: rl then_do_def)
  qed
  have c: "report_line_to_dict E line = Inl AssertionError"
    if k: "key \<in> set (float_columns E)" and ni: "key \<notin> set (int_columns E)"
      and lit: "map_of (zip (columns E) (split_tab line)) key = Some s"
      and bad: "float_of_str E s = None" "s \<noteq> ''.''" for key s
  proof (cases "int_loop E (int_columns E) ?d0")
    case (Inl e)
    then have "e = AssertionError" using int_loop_error assms(2) dom0 by blast
    with Inl show ?thesis by (simp add: rl then_do_def)
  next
    case (Inr d1)
    have "map_of d1 key = Some (VStr s)"
      using int_loop_other [OF Inr ni] lit by (simp add: m0)
    moreover have "dom (map_of d1) = set (columns E)"
      using int_loop_dom [OF Inr] assms(2) dom0 by simp
    ultimately have "float_loop E (float_columns E) d1 = Inl AssertionError"
      using k bad assms(3) by (intro float_loop_bad [where key = key and s = s]) simp_all
    with Inr show ?thesis by (simp add: rl then_do_def)
  qed
  from a b c show ?thesis by blast
qed

theorem sentinel_kept_or_assertion_witness:
  "report_line_to_dict example_env (join_tab [''ref1'', ''64'', ''.'', ''.'', ''ctg1'', ''0'', ''.'']) =
     Inr (Some R3) \<and>
   map_of R3 ''ref_base_assembled'' = Some (VStr ''.'') \<and>
   map_of R3 ''pc_ident'' = Some (VStr ''.'') \<and>
   report_line_to_dict example_env (join_tab [''ref1'', ''27'', ''5x'', ''99'', ''ctg1'', ''0'', ''.'']) =
     Inl AssertionError \<and>
   report_line_to_dict example_env (join_tab [''ref1'', ''27'', ''500'', ''high'', ''ctg1'', ''0'', ''.'']) =
     Inl AssertionError"
proof -
  let ?l1 = "join_tab [''ref1'', ''64'', ''.'', ''.'', ''ctg1'', ''0'', ''.'']"
  let ?l2 = "join_tab [''ref1'', ''27'', ''5x'', ''99'', ''ctg1'', ''0'', ''.'']"
  let ?l3 = "join_tab [''ref1'', ''27'', ''500'', ''high'', ''ctg1'', ''0'', ''.'']"
  have len: "length (split_tab ?l1) = length (columns example_env)"
    "length (split_tab ?l2) = length (columns example_env)"
    "length (split_tab ?l3) = length (columns example_env)"
    by (simp_all add: load_simps)
  have r1: "report_line_to_dict example_env ?l1 = Inr (Some R3)"
    by (simp add: load_simps R3_def example_row_def)
  note t1 = sentinel_kept_or_assertion [OF example_env_fields len(1)]
  note t2 = sentinel_kept_or_assertion [OF example_env_fields len(2)]
  note t3 = sentinel_kept_or_assertion [OF example_env_fields len(3)]
  have "map_of R3 ''ref_base_assembled'' = Some (VStr ''.'')"
  proof -
    have "report_line_to_dict example_env ?l1 = Inr (Some R3) \<and>
        ''ref_base_assembled'' \<in> set (int_columns example_env) \<union> set (float_columns example_env) \<and>
        map_of (zip (columns example_env) (split_tab ?l1)) ''ref_base_assembled'' = Some ''.''"
      using r1 by (simp add: load_simps)
    with t1 show ?thesis by blast
  qed
  moreover have "map_of R3 ''pc_ident'' = Some (VStr ''.'')"
  proof -
    have "report_line_to_dict example_env ?l1 = Inr (Some R3) \<and>
        ''pc_ident'' \<in> set (int_columns example_env) \<union> set (float_columns example_env) \<and>
        map_of (zip (columns example_env) (split_tab ?l1)) ''pc_ident'' = Some ''.''"
      using r1 by (simp add: load_simps)
    with t1 show ?thesis by blast
  qed
  moreover have "report_line_to_dict example_env ?l2 = Inl AssertionError"
  proof -
    have "''ref_base_assembled'' \<in> set (int_columns example_env) \<and>
        map_of (zip (columns example_env) (split_tab ?l2)) ''ref_base_assembled'' = Some ''5x'' \<and>
        int_of_str example_env ''5x'' = None \<and> ''5x'' \<noteq> ''.''"
      by (simp add: load_simps)
    with t2 show ?thesis by blast
  qed
  moreover have "report_line_to_dict example_env ?l3 = Inl AssertionError"
  proof -
    have "''pc_ident'' \<in> set (float_columns example_env) \<and>
        ''pc_ident'' \<notin> set (int_columns example_env) \<and>
        map_of (zip (columns example_env) (split_tab ?l3)) ''pc_ident'' = Some ''high'' \<and>
        float_of_str example_env ''high'' = None \<and> ''high'' \<noteq> ''.''"
      by (simp add: load_simps)
    with t3 show ?thesis by blast
  qed
  ultimately show ?thesis using r1 by simp
qed

text \<open>
  Claim C5. A data line whose number of tab-separated fields differs from the number of
  columns stops the load, whatever came before it. The exception that leaves
  \<^verbatim>\<open>_load_report\<close> is a \<^verbatim>\<open>NameError\<close> for the name \<^verbatim>\<open>data\<close>, not the module's \<^verbatim>\<open>Error\<close>.
\<close>

theorem wrong_column_count_raises_NameError:
  assumes "load_report E (h # good) = Inr c"
    and "length (split_tab (rstrip l)) \<noteq> length (columns E)"
  shows "load_report E (h # good @ l # rest) = Inl (NameError ''data'')"
proof -
  have "load_lines E ((h # good) @ l # rest) True [] = load_lines E (l # rest) False c"
    using assms(1) unfolding load_lines_append load_report_def by simp
  moreover have "load_lines E (l # rest) False c = Inl (NameError ''data'')"
    using assms(2) by (simp add: report_line_to_dict_def Let_def)
  ultimately show ?thesis by (simp add: load_report_def)
qed

theorem wrong_column_count_raises_NameError_witness:
  "load_report example_env
     [example_header, example_line [''ref1'', ''27'', ''500'', ''99'', ''ctg1'', ''0'', ''I42L'']] =
     Inr [(VStr ''ref1'', [(VStr ''ctg1'', [R1])])] \<and>
   length (split_tab (rstrip (example_line [''ref1'', ''27'']))) \<noteq> length (columns example_env) \<and>
   load_report example_env
     [example_header, example_line [''ref1'', ''27'', ''500'', ''99'', ''ctg1'', ''0'', ''I42L''],
      example_line [''ref1'', ''27'']] = Inl (NameError ''data'')"
proof -
  have a: "load_report example_env
     (example_header # [example_line [''ref1'', ''27'', ''500'', ''99'', ''ctg1'', ''0'', ''I42L'']]) =
     Inr [(VStr ''ref1'', [(VStr ''ctg1'', [R1])])]"
    by (simp add: load_simps R1_def example_row_def)
  have b: "length (split_tab (rstrip (example_line [''ref1'', ''27'']))) \<noteq> length (columns example_env)"
    by (simp add: load_simps)
  from wrong_column_count_raises_NameError [OF a b, of "[]"] a b show ?thesis by simp
qed


section \<open>The filter on the whole report\<close>

lemma returns_filtered: "returns E self g \<Longrightarrow> filter_list_of_dicts E self g = Inr (filtered E self g)"
  by (simp add: returns_def filtered_def split: sum.splits)

lemma not_returns: "\<not> returns E self g \<Longrightarrow> \<exists>e. filter_list_of_dicts E self g = Inl e"
  by (simp add: returns_def split: sum.splits)

lemma update_append_hit:
  "k \<notin> fst ` set P \<Longrightarrow> AList.update k v (P @ (k, w) # S) = P @ (k, v) # S"
  by (induction P) auto

lemma map_of_append_hit:
  "k \<notin> fst ` set P \<Longrightarrow> map_of (P @ (k, w) # S) k = Some w"
  by (induction P) auto

lemma set_fold_insert: "set (fold List.insert xs ys) = set xs \<union> set ys"
  by (induction xs arbitrary: ys) auto

lemma distinct_fold_insert: "distinct ys \<Longrightarrow> distinct (fold List.insert xs ys)"
  by (induction xs arbitrary: ys) auto

lemma filter_ctgs_suffix:
  assumes "distinct (map fst (P @ suf))" and "map_of rep ref = Some (P @ suf)"
  shows "((\<forall>(c, g)\<in>set suf. returns E self g) \<longrightarrow>
            (\<exists>ktr'. filter_ctgs E self ref (map fst suf) (rep, ktr) =
               Inr (AList.update ref (P @ map (\<lambda>(c, g). (c, filtered E self g)) suf) rep, ktr') \<and>
               set ktr' = set ktr \<union> {(ref, c) |c g. (c, g) \<in> set suf \<and> filtered E self g = []} \<and>
               (distinct ktr \<longrightarrow> distinct ktr'))) \<and>
         (\<not> (\<forall>(c, g)\<in>set suf. returns E self g) \<longrightarrow>
            (\<exists>e. filter_ctgs E self ref (map fst suf) (rep, ktr) = Inl e))"
  using assms
proof (induction suf arbitrary: P rep ktr)
  case Nil
  then show ?case by (simp add: update_triv)
next
  case (Cons x suf)
  obtain c g where x: "x = (c, g)" by (cases x)
  from Cons.prems(1) have cP: "c \<notin> fst ` set P" by (auto simp: x)
  have get1: "getitem rep ref = Inr (P @ (c, g) # suf)"
    using Cons.prems(2) by (simp add: getitem_def x)
  have get2: "getitem (P @ (c, g) # suf) c = Inr g"
    unfolding getitem_def using map_of_append_hit [OF cP, of g suf] by (simp del: map_of_append)
  show ?case
  proof (cases "returns E self g")
    case False
    then obtain e where "filter_list_of_dicts E self g = Inl e" using not_returns by blast
    with False show ?thesis by (auto simp: x get1 get2)
  next
    case True
    let ?g' = "filtered E self g"
    let ?rep1 = "AList.update ref (AList.update c ?g' (P @ (c, g) # suf)) rep"
    let ?ktr1 = "if length ?g' = 0 then List.insert (ref, c) ktr else ktr"
    have fl: "filter_list_of_dicts E self g = Inr ?g'" using True by (rule returns_filtered)
    have upd: "AList.update c ?g' (P @ (c, g) # suf) = (P @ [(c, ?g')]) @ suf"
      using cP by (simp add: update_append_hit)
    have step: "filter_ctgs E self ref (map fst (x # suf)) (rep, ktr) =
        filter_ctgs E self ref (map fst suf) (?rep1, ?ktr1)"
      by (simp add: x get1 get2 fl)
    have d1: "distinct (map fst ((P @ [(c, ?g')]) @ suf))" using Cons.prems(1) by (simp add: x)
    have m1: "map_of ?rep1 ref = Some ((P @ [(c, ?g')]) @ suf)"
      by (simp add: update_conv' upd)
    note IH = Cons.IH [OF d1 m1, of ?ktr1]
    have rep_eq: "AList.update ref ((P @ [(c, ?g')]) @ map (\<lambda>(c, g). (c, filtered E self g)) suf) ?rep1 =
        AList.update ref (P @ map (\<lambda>(c, g). (c, filtered E self g)) (x # suf)) rep"
      by (simp add: x)
    show ?thesis
    proof (cases "\<forall>(c, g)\<in>set suf. returns E self g")
      case False
      with IH obtain e where "filter_ctgs E self ref (map fst suf) (?rep1, ?ktr1) = Inl e" by blast
      with False show ?thesis unfolding step by auto
    next
      case all: True
      with IH obtain ktr' where
        r: "filter_ctgs E self ref (map fst suf) (?rep1, ?ktr1) =
              Inr (AList.update ref ((P @ [(c, ?g')]) @ map (\<lambda>(c, g). (c, filtered E self g)) suf) ?rep1, ktr')"
        and s: "set ktr' = set ?ktr1 \<union> {(ref, c) |c g. (c, g) \<in> set suf \<and> filtered E self g = []}"
        and d: "distinct ?ktr1 \<longrightarrow> distinct ktr'"
        by blast
      have s': "set ktr' = set ktr \<union> {(ref, c') |c' g'. (c', g') \<in> set (x # suf) \<and> filtered E self g' = []}"
        unfolding s by (auto simp: x)
      have d': "distinct ktr \<longrightarrow> distinct ktr'" using d by auto
      have "\<forall>(c, g)\<in>set (x # suf). returns E self g" using all True by (simp add: x)
      then show ?thesis
        unfolding step r rep_eq using s' d' by blast
    qed
  qed
qed

lemma filter_refs_suffix:
  assumes "distinct (map fst (P @ suf))" and "\<forall>(r, ctgs)\<in>set suf. distinct (map fst ctgs)"
  shows "(all_return E self suf \<longrightarrow>
            (\<exists>ktr'. filter_refs E self (map fst suf) (P @ suf, ktr) =
               Inr (P @ filter_groups E self suf, ktr') \<and>
               set ktr' = set ktr \<union> emptied E self suf \<and>
               (distinct ktr \<longrightarrow> distinct ktr'))) \<and>
         (\<not> all_return E self suf \<longrightarrow>
            (\<exists>e. filter_refs E self (map fst suf) (P @ suf, ktr) = Inl e))"
  using assms
proof (induction suf arbitrary: P ktr)
  case Nil
  then show ?case by (simp add: all_return_def filter_groups_def emptied_def)
next
  case (Cons x suf)
  obtain r ctgs where x: "x = (r, ctgs)" by (cases x)
  from Cons.prems(1) have rP: "r \<notin> fst ` set P" by (auto simp: x)
  from Cons.prems(2) have dc: "distinct (map fst ([] @ ctgs))" by (simp add: x)
  have m: "map_of (P @ (r, ctgs) # suf) r = Some ([] @ ctgs)"
    using map_of_append_hit [OF rP, of ctgs suf] by simp
  have get1: "getitem (P @ (r, ctgs) # suf) r = Inr ctgs"
    unfolding getitem_def using m by (simp del: map_of_append)
  note C = filter_ctgs_suffix [OF dc m, of E self ktr]
  show ?case
  proof (cases "\<forall>(c, g)\<in>set ctgs. returns E self g")
    case False
    with C obtain e where "filter_ctgs E self r (map fst ctgs) (P @ (r, ctgs) # suf, ktr) = Inl e"
      by blast
    moreover have "\<not> all_return E self (x # suf)" using False by (simp add: all_return_def x)
    ultimately show ?thesis by (simp add: x get1 del: map_of_append)
  next
    case True
    let ?ctgs' = "map (\<lambda>(c, g). (c, filtered E self g)) ctgs"
    from True C obtain ktr1 where
      c1: "filter_ctgs E self r (map fst ctgs) (P @ (r, ctgs) # suf, ktr) =
             Inr (AList.update r ?ctgs' (P @ (r, ctgs) # suf), ktr1)"
      and s1: "set ktr1 = set ktr \<union> {(r, c) |c g. (c, g) \<in> set ctgs \<and> filtered E self g = []}"
      and d1: "distinct ktr \<longrightarrow> distinct ktr1"
      by auto
    have upd: "AList.update r ?ctgs' (P @ (r, ctgs) # suf) = (P @ [(r, ?ctgs')]) @ suf"
      using rP by (simp add: update_append_hit)
    have step: "filter_refs E self (map fst (x # suf)) (P @ x # suf, ktr) =
        filter_refs E self (map fst suf) ((P @ [(r, ?ctgs')]) @ suf, ktr1)"
      by (simp add: x get1 c1 upd del: map_of_append)
    have dd: "distinct (map fst ((P @ [(r, ?ctgs')]) @ suf))" using Cons.prems(1) by (simp add: x)
    have dd2: "\<forall>(r, ctgs)\<in>set suf. distinct (map fst ctgs)" using Cons.prems(2) by simp
    note IH = Cons.IH [OF dd dd2, of ktr1]
    have ar: "all_return E self (x # suf) = all_return E self suf"
      using True by (simp add: all_return_def x)
    have em: "emptied E self (x # suf) =
        {(r, c) |c g. (c, g) \<in> set ctgs \<and> filtered E self g = []} \<union> emptied E self suf"
      by (auto simp: emptied_def x)
    have fg: "(P @ [(r, ?ctgs')]) @ filter_groups E self suf = P @ filter_groups E self (x # suf)"
      by (simp add: filter_groups_def x)
    show ?thesis
    proof (cases "all_return E self suf")
      case False
      with IH ar show ?thesis unfolding step by blast
    next
      case all: True
      with IH obtain ktr' where
        r: "filter_refs E self (map fst suf) ((P @ [(r, ?ctgs')]) @ suf, ktr1) =
              Inr ((P @ [(r, ?ctgs')]) @ filter_groups E self suf, ktr')"
        and s: "set ktr' = set ktr1 \<union> emptied E self suf"
        and d: "distinct ktr1 \<longrightarrow> distinct ktr'"
        by blast
      have "set ktr' = set ktr \<union> emptied E self (x # suf)" unfolding s s1 em by auto
      moreover have "distinct ktr \<longrightarrow> distinct ktr'" using d d1 by blast
      ultimately show ?thesis unfolding step r fg ar using all by blast
    qed
  qed
qed

lemma filter_refs_all:
  assumes "wf_report rep"
  shows "(all_return E self rep \<longrightarrow>
            (\<exists>ktr. filter_refs E self (map fst rep) (rep, []) = Inr (filter_groups E self rep, ktr) \<and>
               set ktr = emptied E self rep \<and> distinct ktr)) \<and>
         (\<not> all_return E self rep \<longrightarrow>
            (\<exists>e. filter_refs E self (map fst rep) (rep, []) = Inl e))"
  using filter_refs_suffix [of "[]" rep E self "[]"] assms by (simp add: wf_report_def)

lemma remove_refs_filter:
  "distinct (map fst rep) \<Longrightarrow> distinct rs \<Longrightarrow> set rs \<subseteq> fst ` set rep \<Longrightarrow>
   remove_refs rs rep = Inr (filter (\<lambda>(r, ctgs). r \<notin> set rs) rep)"
proof (induction rs arbitrary: rep)
  case Nil
  then show ?case by simp
next
  case (Cons r rs)
  from Cons.prems(3) have "r \<in> fst ` set rep" by simp
  then have "map_of rep r \<noteq> None" by (simp add: map_of_eq_None_iff)
  then obtain v where v: "map_of rep r = Some v" by blast
  have d: "distinct (map fst (AList.delete r rep))" using Cons.prems(1) by (rule distinct_delete)
  have "set (map fst (AList.delete r rep)) = set (map fst rep) - {r}"
    by (simp add: delete_keys)
  then have sub: "set rs \<subseteq> fst ` set (AList.delete r rep)"
    using Cons.prems(2,3) by auto
  have "remove_refs rs (AList.delete r rep) =
      Inr (filter (\<lambda>(r, ctgs). r \<notin> set rs) (AList.delete r rep))"
    using Cons.IH [OF d _ sub] Cons.prems(2) by simp
  also have "filter (\<lambda>(r, ctgs). r \<notin> set rs) (AList.delete r rep) =
      filter (\<lambda>(r', ctgs). r' \<notin> set (r # rs)) rep"
    by (auto simp: AList.delete_eq intro!: filter_cong)
  finally show ?case using v by (simp add: delitem_def)
qed

lemma map_of_map_entry:
  "map_of (map (\<lambda>(k, v). (k, f k v)) al) k = map_option (f k) (map_of al k)"
  by (induction al) auto

lemma map_of_drop_keys:
  "map_of (drop_keys D rep) r = map_option (filter (\<lambda>(c, g). (r, c) \<notin> D)) (map_of rep r)"
  unfolding drop_keys_def by (rule map_of_map_entry)

lemma update_map_entry:
  "distinct (map fst al) \<Longrightarrow> (r, x) \<in> set al \<Longrightarrow> (\<And>k y. k \<noteq> r \<Longrightarrow> f k y = f' k y) \<Longrightarrow>
   AList.update r (f' r x) (map (\<lambda>(k, y). (k, f k y)) al) = map (\<lambda>(k, y). (k, f' k y)) al"
proof (induction al)
  case Nil
  then show ?case by simp
next
  case (Cons a al)
  obtain k y where a: "a = (k, y)" by (cases a)
  show ?case
  proof (cases "k = r")
    case True
    with Cons.prems(1,2) have xy: "y = x" by (auto simp: a image_iff)
    from True Cons.prems(1) have "r \<notin> fst ` set al" by (simp add: a)
    then have "map (\<lambda>(k, y). (k, f k y)) al = map (\<lambda>(k, y). (k, f' k y)) al"
      using Cons.prems(3) by (auto intro!: map_cong simp: image_iff)
    with True xy show ?thesis by (simp add: a)
  next
    case False
    with Cons.prems(2) have "(r, x) \<in> set al" by (simp add: a)
    with Cons.prems(1,3) Cons.IH False show ?thesis by (simp add: a)
  qed
qed

lemma map_of_is_Some_mem:
  "distinct (map fst al) \<Longrightarrow> map_of al k = Some v \<longleftrightarrow> (k, v) \<in> set al"
  by (auto dest: map_of_SomeD)

lemma remove_keys_spec:
  assumes "distinct (map fst rep1)"
    and "distinct K" and "set K \<inter> D = {}"
    and "\<forall>(r, c)\<in>set K. \<exists>ctgs. map_of rep1 r = Some ctgs \<and> c \<in> fst ` set ctgs"
  shows "\<exists>rtr'. remove_keys K (drop_keys D rep1, rtr) = Inr (drop_keys (D \<union> set K) rep1, rtr') \<and>
           set rtr' = set rtr \<union>
             {r. (\<exists>c. (r, c) \<in> set K) \<and> map_of (drop_keys (D \<union> set K) rep1) r = Some []} \<and>
           (distinct rtr \<longrightarrow> distinct rtr')"
  using assms(2-)
proof (induction K arbitrary: D rtr)
  case Nil
  then show ?case by simp
next
  case (Cons k K)
  obtain r c where k: "k = (r, c)" by (cases k)
  from Cons.prems(3) obtain ctgs where ctgs: "map_of rep1 r = Some ctgs" and c: "c \<in> fst ` set ctgs"
    by (auto simp: k)
  from Cons.prems(2) have rcD: "(r, c) \<notin> D" by (auto simp: k)
  let ?D1 = "insert (r, c) D"
  let ?cur = "filter (\<lambda>(c', g). (r, c') \<notin> D) ctgs"
  let ?new = "filter (\<lambda>(c', g). (r, c') \<notin> ?D1) ctgs"
  let ?rtr1 = "if length ?new = 0 then List.insert r rtr else rtr"
  have get1: "getitem (drop_keys D rep1) r = Inr ?cur"
    by (simp add: getitem_def map_of_drop_keys ctgs)
  from c rcD have "c \<in> fst ` set ?cur" by (force simp: image_iff)
  then have "map_of ?cur c \<noteq> None" by (simp add: map_of_eq_None_iff)
  moreover have "AList.delete c ?cur = ?new"
    by (auto simp: AList.delete_eq intro!: filter_cong)
  ultimately have del: "delitem ?cur c = Inr ?new"
    by (auto simp: delitem_def)
  have mem: "(r, ctgs) \<in> set rep1" using ctgs by (rule map_of_SomeD)
  have upd: "AList.update r ?new (drop_keys D rep1) = drop_keys ?D1 rep1"
    unfolding drop_keys_def
    by (rule update_map_entry [OF assms(1) mem,
          where f' = "\<lambda>r ctgs. filter (\<lambda>(c', g). (r, c') \<notin> ?D1) ctgs"]) auto
  have step: "remove_keys (k # K) (drop_keys D rep1, rtr) = remove_keys K (drop_keys ?D1 rep1, ?rtr1)"
  proof -
    have "remove_keys (k # K) (drop_keys D rep1, rtr) =
        remove_keys K (AList.update r ?new (drop_keys D rep1), ?rtr1)"
      by (simp only: k remove_keys.simps get1 del sum.case)
    then show ?thesis by (simp only: upd)
  qed
  have p1: "distinct K" and p2: "set K \<inter> ?D1 = {}"
    and p3: "\<forall>(r, c)\<in>set K. \<exists>ctgs. map_of rep1 r = Some ctgs \<and> c \<in> fst ` set ctgs"
    using Cons.prems by (auto simp: k)
  from Cons.IH [OF p1 p2 p3, of ?rtr1] obtain rtr' where
    r: "remove_keys K (drop_keys ?D1 rep1, ?rtr1) = Inr (drop_keys (?D1 \<union> set K) rep1, rtr')"
    and s: "set rtr' = set ?rtr1 \<union>
        {r'. (\<exists>c'. (r', c') \<in> set K) \<and> map_of (drop_keys (?D1 \<union> set K) rep1) r' = Some []}"
    and d: "distinct ?rtr1 \<longrightarrow> distinct rtr'"
    by blast
  have Deq: "?D1 \<union> set K = D \<union> set (k # K)" by (auto simp: k)
  define M where "M = map_of (drop_keys (D \<union> set (k # K)) rep1)"
  define finl where "finl = filter (\<lambda>(c', g). (r, c') \<notin> D \<union> set (k # K)) ctgs"
  have fin: "M r = Some finl"
    by (simp only: M_def finl_def map_of_drop_keys ctgs option.map)
  have e1: "finl = []" if "?new = []"
    using that unfolding finl_def by (auto simp: filter_empty_conv k)
  have e2: "\<exists>c'. (r, c') \<in> set K" if "finl = []" "?new \<noteq> []"
  proof -
    from that(2) obtain c' g where cg: "(c', g) \<in> set ctgs" "(r, c') \<notin> ?D1"
      by (auto simp: filter_empty_conv)
    from that(1) cg(1) have "(r, c') \<in> D \<union> set (k # K)"
      unfolding finl_def by (auto simp: filter_empty_conv)
    with cg(2) show ?thesis by (auto simp: k)
  qed
  have s0: "set rtr' = set ?rtr1 \<union> {r'. (\<exists>c'. (r', c') \<in> set K) \<and> M r' = Some []}"
    using s unfolding Deq M_def .
  have kK: "(\<exists>c'. (r', c') \<in> set (k # K)) \<longleftrightarrow> r' = r \<or> (\<exists>c'. (r', c') \<in> set K)" for r'
    by (auto simp: k)
  have "set rtr' = set rtr \<union> {r'. (\<exists>c'. (r', c') \<in> set (k # K)) \<and> M r' = Some []}"
  proof (cases "?new = []")
    case True
    then have "set ?rtr1 = insert r (set rtr)" by simp
    moreover from True have "M r = Some []" using e1 fin by simp
    ultimately show ?thesis unfolding s0 kK by auto
  next
    case False
    then have "set ?rtr1 = set rtr" by simp
    moreover have "M r = Some [] \<Longrightarrow> \<exists>c'. (r, c') \<in> set K" using e2 False fin by simp
    ultimately show ?thesis unfolding s0 kK by auto
  qed
  then have s': "set rtr' = set rtr \<union>
      {r'. (\<exists>c'. (r', c') \<in> set (k # K)) \<and> map_of (drop_keys (D \<union> set (k # K)) rep1) r' = Some []}"
    unfolding M_def .
  have "distinct rtr \<longrightarrow> distinct rtr'" using d by auto
  with r s' show ?case unfolding step Deq by blast
qed

lemma emptied_iff:
  assumes "wf_report rep" and "(r, ctgs) \<in> set rep" and "(c, g) \<in> set ctgs"
  shows "(r, c) \<in> emptied E self rep \<longleftrightarrow> filtered E self g = []"
proof
  assume "(r, c) \<in> emptied E self rep"
  then obtain ctgs2 g2 where a: "(r, ctgs2) \<in> set rep" "(c, g2) \<in> set ctgs2" "filtered E self g2 = []"
    by (auto simp: emptied_def)
  from assms(1) have d: "distinct (map fst rep)" by (simp add: wf_report_def)
  from a(1) assms(2) d have "ctgs2 = ctgs" by (meson eq_key_imp_eq_value)
  moreover from assms(1,2) have "distinct (map fst ctgs)" by (auto simp: wf_report_def)
  ultimately have "g2 = g" using a(2) assms(3) by (meson eq_key_imp_eq_value)
  with a(3) show "filtered E self g = []" by simp
next
  assume "filtered E self g = []"
  with assms(2,3) show "(r, c) \<in> emptied E self rep" by (auto simp: emptied_def)
qed

lemma drop_emptied_entry:
  assumes "wf_report rep" and "(r, ctgs) \<in> set rep"
  shows "filter (\<lambda>(c, g'). (r, c) \<notin> emptied E self rep) (map (\<lambda>(c, g). (c, filtered E self g)) ctgs) =
         prune_ctgs E self ctgs"
proof -
  have "filter (\<lambda>(c, g'). (r, c) \<notin> emptied E self rep) (map (\<lambda>(c, g). (c, filtered E self g)) ctgs) =
      map (\<lambda>(c, g). (c, filtered E self g)) (filter (\<lambda>(c, g). (r, c) \<notin> emptied E self rep) ctgs)"
    by (induction ctgs) auto
  also have "filter (\<lambda>(c, g). (r, c) \<notin> emptied E self rep) ctgs =
      filter (\<lambda>(c, g). filtered E self g \<noteq> []) ctgs"
    using emptied_iff [OF assms] by (auto intro!: filter_cong)
  also have "map (\<lambda>(c, g). (c, filtered E self g)) (filter (\<lambda>(c, g). filtered E self g \<noteq> []) ctgs) =
      prune_ctgs E self ctgs"
    unfolding prune_ctgs_def by (induction ctgs) auto
  finally show ?thesis .
qed

lemma drop_keys_filter_groups:
  assumes "wf_report rep"
  shows "drop_keys (emptied E self rep) (filter_groups E self rep) =
         map (\<lambda>(r, ctgs). (r, prune_ctgs E self ctgs)) rep"
  unfolding drop_keys_def filter_groups_def map_map
  using drop_emptied_entry [OF assms] by (auto intro!: map_cong)

lemma filter_dicts_closed:
  assumes wf: "wf_report (report self)" and ar: "all_return E self (report self)"
  shows "filter_dicts E self = Inr (self\<lparr>report := filtered_report E self (report self)\<rparr>)"
proof -
  let ?rep = "report self"
  let ?rep1 = "filter_groups E self ?rep"
  let ?Em = "emptied E self ?rep"
  let ?rep2 = "map (\<lambda>(r, ctgs). (r, prune_ctgs E self ctgs)) ?rep"
  from wf have d: "distinct (map fst ?rep)" by (simp add: wf_report_def)
  from filter_refs_all [OF wf, of E self] ar obtain ktr where
    f1: "filter_refs E self (map fst ?rep) (?rep, []) = Inr (?rep1, ktr)"
    and sk: "set ktr = ?Em" and dk: "distinct ktr"
    by blast
  have keys1: "map fst ?rep1 = map fst ?rep" by (simp add: filter_groups_def case_prod_unfold)
  have d1: "distinct (map fst ?rep1)" using d by (simp add: keys1)
  have pres: "\<forall>(r, c)\<in>set ktr. \<exists>ctgs. map_of ?rep1 r = Some ctgs \<and> c \<in> fst ` set ctgs"
  proof (clarify)
    fix r c assume "(r, c) \<in> set ktr"
    with sk obtain ctgs g where m: "(r, ctgs) \<in> set ?rep" "(c, g) \<in> set ctgs"
      by (auto simp: emptied_def)
    from m(1) d have "map_of ?rep r = Some ctgs" by simp
    then have "map_of ?rep1 r = Some (map (\<lambda>(c, g). (c, filtered E self g)) ctgs)"
      unfolding filter_groups_def by (simp add: map_of_map_entry)
    moreover have "c \<in> fst ` set (map (\<lambda>(c, g). (c, filtered E self g)) ctgs)"
      using m(2) by (force simp: image_iff)
    ultimately show "\<exists>ctgs. map_of ?rep1 r = Some ctgs \<and> c \<in> fst ` set ctgs" by blast
  qed
  have dk0: "drop_keys {} ?rep1 = ?rep1" by (simp add: drop_keys_def case_prod_unfold)
  from remove_keys_spec [OF d1 dk _ pres, of "{}" "[]"] obtain rtr where
    f2: "remove_keys ktr (?rep1, []) = Inr (drop_keys ?Em ?rep1, rtr)"
    and sr: "set rtr = {r. (\<exists>c. (r, c) \<in> ?Em) \<and> map_of (drop_keys ?Em ?rep1) r = Some []}"
    and dr: "distinct rtr"
    by (auto simp: dk0 sk)
  have r2: "drop_keys ?Em ?rep1 = ?rep2" using wf by (rule drop_keys_filter_groups)
  have keys2: "map fst ?rep2 = map fst ?rep" by (simp add: case_prod_unfold)
  have d2: "distinct (map fst ?rep2)" using d by (simp only: keys2)
  have sub: "set rtr \<subseteq> fst ` set ?rep2"
  proof
    fix r assume "r \<in> set rtr"
    with sr r2 have "map_of ?rep2 r = Some []" by simp
    then have "(r, []) \<in> set ?rep2" by (rule map_of_SomeD)
    then show "r \<in> fst ` set ?rep2" by (force simp: image_iff)
  qed
  have f3: "remove_refs rtr ?rep2 = Inr (filter (\<lambda>(r, ctgs). r \<notin> set rtr) ?rep2)"
    using d2 dr sub by (rule remove_refs_filter)
  have rt: "r \<in> set rtr \<longleftrightarrow> \<not> (ctgs = [] \<or> prune_ctgs E self ctgs \<noteq> [])"
    if m: "(r, ctgs) \<in> set ?rep" for r ctgs
  proof -
    from m d have "map_of ?rep r = Some ctgs" by simp
    then have m2: "map_of ?rep2 r = Some (prune_ctgs E self ctgs)"
      by (simp add: map_of_map_entry)
    define A where "A \<longleftrightarrow> (\<exists>c. (r, c) \<in> ?Em)"
    define P where "P \<longleftrightarrow> prune_ctgs E self ctgs = []"
    define X where "X = (\<lambda>g. filtered E self g = [])"
    have Aiff: "A \<longleftrightarrow> (\<exists>(c, g)\<in>set ctgs. X g)"
    proof
      assume A
      then obtain c ctgs2 g where a: "(r, ctgs2) \<in> set ?rep" "(c, g) \<in> set ctgs2" "filtered E self g = []"
        by (auto simp: emptied_def A_def)
      from a(1) m d have "ctgs2 = ctgs" by (meson eq_key_imp_eq_value)
      with a show "\<exists>(c, g)\<in>set ctgs. X g" by (auto simp: X_def)
    next
      assume "\<exists>(c, g)\<in>set ctgs. X g"
      with m show A by (auto simp: emptied_def A_def X_def)
    qed
    have Piff: "P \<longleftrightarrow> (\<forall>(c, g)\<in>set ctgs. X g)"
      by (auto simp: prune_ctgs_def filter_empty_conv P_def X_def)
    have mem: "r \<in> set rtr \<longleftrightarrow> A \<and> P"
      unfolding sr r2 A_def P_def using m2 by simp
    have "A \<and> P \<longleftrightarrow> ctgs \<noteq> [] \<and> P"
      unfolding Aiff Piff by (cases ctgs) auto
    with mem show ?thesis by (simp add: P_def)
  qed
  have "filter (\<lambda>(r, ctgs). r \<notin> set rtr) ?rep2 =
      map (\<lambda>(r, ctgs). (r, prune_ctgs E self ctgs)) (filter (\<lambda>(r, ctgs). r \<notin> set rtr) ?rep)"
    by (simp add: filter_map o_def case_prod_unfold)
  also have "filter (\<lambda>(r, ctgs). r \<notin> set rtr) ?rep =
      filter (\<lambda>(r, ctgs). ctgs = [] \<or> prune_ctgs E self ctgs \<noteq> []) ?rep"
    using rt by (auto intro!: filter_cong)
  finally have fin: "filter (\<lambda>(r, ctgs). r \<notin> set rtr) ?rep2 = filtered_report E self ?rep"
    by (simp add: filtered_report_def)
  show ?thesis
    unfolding filter_dicts_def by (simp only: f1 f2 r2 f3 fin sum.case prod.case)
qed

lemma filter_dicts_raises:
  assumes wf: "wf_report (report self)" and ar: "\<not> all_return E self (report self)"
  shows "\<exists>e. filter_dicts E self = Inl e"
proof -
  from filter_refs_all [OF wf, of E self] ar obtain e where
    "filter_refs E self (map fst (report self)) (report self, []) = Inl e" by blast
  then show ?thesis by (simp add: filter_dicts_def)
qed

lemma filter_dicts_Inr_iff:
  assumes "wf_report (report self)"
  shows "filter_dicts E self = Inr self' \<longleftrightarrow>
         all_return E self (report self) \<and> self' = self\<lparr>report := filtered_report E self (report self)\<rparr>"
  using filter_dicts_closed [OF assms, of E] filter_dicts_raises [OF assms, of E]
  by (cases "all_return E self (report self)") auto

lemma essential_report_update [simp]:
  "report_dict_passes_essential_filters E (self\<lparr>report := x\<rparr>) d =
   report_dict_passes_essential_filters E self d"
  by (simp add: report_dict_passes_essential_filters_def)

lemma non_essential_report_update [simp]:
  "report_dict_passes_non_essential_filters (self\<lparr>report := x\<rparr>) d =
   report_dict_passes_non_essential_filters self d"
  by (simp add: report_dict_passes_non_essential_filters_def)

lemma sort_dicts_report_update [simp]:
  "sort_dicts E (self\<lparr>report := x\<rparr>) ds acc = sort_dicts E self ds acc"
proof (induction ds arbitrary: acc)
  case Nil
  then show ?case by simp
next
  case (Cons d ds)
  obtain p e f where "acc = (p, e, f)" by (cases acc)
  with Cons show ?case by (simp split: sum.splits bool.splits)
qed

lemma filter_list_report_update [simp]:
  "filter_list_of_dicts E (self\<lparr>report := x\<rparr>) g = filter_list_of_dicts E self g"
  by (simp add: filter_list_of_dicts_def)

lemma predicates_report_update [simp]:
  "passes_essential E (self\<lparr>report := x\<rparr>) = passes_essential E self"
  "passes_both E (self\<lparr>report := x\<rparr>) = passes_both E self"
  "classifiable E (self\<lparr>report := x\<rparr>) = classifiable E self"
  "filtered E (self\<lparr>report := x\<rparr>) = filtered E self"
  "returns E (self\<lparr>report := x\<rparr>) = returns E self"
  by (simp_all add: fun_eq_iff passes_essential_def passes_both_def classifiable_def filtered_def
      returns_def report_dict_passes_filters_def)

lemma returns_iff: "returns E self g \<longleftrightarrow> (\<forall>d\<in>set g. classifiable E self d)"
proof
  assume r: "returns E self g"
  show "\<forall>d\<in>set g. classifiable E self d"
  proof (cases g)
    case Nil
    then show ?thesis by simp
  next
    case (Cons x xs)
    with r obtain res where "sort_dicts E self g ([], [], []) = Inr res"
      by (auto simp: returns_def filter_list_of_dicts_def split: sum.splits)
    then show ?thesis using sort_dicts_returns by blast
  qed
next
  assume "\<forall>d\<in>set g. classifiable E self d"
  then show "returns E self g"
    by (simp add: returns_def filter_list_of_dicts_classifiable split: list.splits)
qed

lemma filtered_eq:
  assumes "returns E self g"
  shows "filtered E self g =
     (if filter (passes_both E self) g \<noteq> [] then filter (passes_both E self) g
      else case filter (passes_essential E self) g of [] \<Rightarrow> [] | d # ds \<Rightarrow> [blank_var_columns E d])"
proof -
  from assms have c: "\<forall>d\<in>set g. classifiable E self d" by (simp add: returns_iff)
  show ?thesis
    by (simp add: filtered_def filter_list_of_dicts_classifiable [OF c] split: list.splits)
qed

text \<open>The essential predicate reads three keys only.\<close>

lemma essential_cong:
  assumes "map_of d1 ''flag'' = map_of d2 ''flag''"
    and "map_of d1 ''pc_ident'' = map_of d2 ''pc_ident''"
    and "map_of d1 ''ref_base_assembled'' = map_of d2 ''ref_base_assembled''"
  shows "report_dict_passes_essential_filters E self d1 = report_dict_passes_essential_filters E self d2"
  using assms by (simp add: report_dict_passes_essential_filters_def getitem_def)

lemma essential_blank:
  "essential_keys_kept E \<Longrightarrow>
   report_dict_passes_essential_filters E self (blank_var_columns E d) =
   report_dict_passes_essential_filters E self d"
  by (rule essential_cong) (simp_all add: map_of_blank_var_columns essential_keys_kept_def)

lemma non_essential_blank:
  assumes "report_dict_passes_non_essential_filters self d = Inr False"
  shows "report_dict_passes_non_essential_filters self (blank_var_columns E d) = Inr False"
  using assms
  by (auto simp: report_dict_passes_non_essential_filters_def then_do_def getitem_def
      map_of_blank_var_columns split: if_splits option.splits)

lemma fold_update_same:
  "\<forall>k\<in>set ks. map_of d k = Some v \<Longrightarrow> fold (\<lambda>key new_d. AList.update key v new_d) ks d = d"
  by (induction ks) (simp_all add: update_triv)

lemma blank_blank: "blank_var_columns E (blank_var_columns E d) = blank_var_columns E d"
  unfolding blank_var_columns_def
  by (rule fold_update_same) (simp add: map_of_fold_update)

text \<open>What a returned group consists of.\<close>

lemma filtered_cases:
  assumes "returns E self g"
  shows "(filter (passes_both E self) g \<noteq> [] \<and> filtered E self g = filter (passes_both E self) g) \<or>
         (filter (passes_both E self) g = [] \<and> filter (passes_essential E self) g = [] \<and>
            filtered E self g = []) \<or>
         (filter (passes_both E self) g = [] \<and>
            (\<exists>d\<in>set g. passes_essential E self d \<and> \<not> passes_both E self d \<and>
               filtered E self g = [blank_var_columns E d]))"
proof -
  note eq = filtered_eq [OF assms]
  show ?thesis
  proof (cases "filter (passes_both E self) g = []")
    case False
    with eq show ?thesis by simp
  next
    case True
    show ?thesis
    proof (cases "filter (passes_essential E self) g")
      case Nil
      with True eq show ?thesis by simp
    next
      case (Cons d ds)
      then have "d \<in> set (filter (passes_essential E self) g)" by simp
      then have d: "d \<in> set g" "passes_essential E self d" by simp_all
      from True d(1) have "\<not> passes_both E self d" by (auto simp: filter_empty_conv)
      with True Cons eq d show ?thesis by auto
    qed
  qed
qed

lemma filtered_member:
  assumes "returns E self g" and "d' \<in> set (filtered E self g)"
  shows "\<exists>d\<in>set g. passes_essential E self d \<and>
           ((d' = d \<and> passes_both E self d) \<or>
            (d' = blank_var_columns E d \<and> \<not> passes_both E self d \<and>
               filtered E self g = [blank_var_columns E d]))"
  using filtered_cases [OF assms(1)] assms(2)
  by (auto simp: passes_both_iff)

lemma map_of_filter_distinct:
  "distinct (map fst al) \<Longrightarrow>
   map_of (filter P al) k =
     (case map_of al k of None \<Rightarrow> None | Some v \<Rightarrow> if P (k, v) then Some v else None)"
proof (induction al)
  case Nil
  then show ?case by simp
next
  case (Cons a al)
  obtain k' v' where a: "a = (k', v')" by (cases a)
  from Cons.prems have "k' \<notin> fst ` set al" by (simp add: a)
  then have "map_of al k' = None" by (simp add: map_of_eq_None_iff)
  with Cons show ?case by (auto simp: a split: option.splits)
qed

lemma prune_ctgs_alt:
  "prune_ctgs E self ctgs =
     map (\<lambda>(c, g). (c, filtered E self g)) (filter (\<lambda>(c, g). filtered E self g \<noteq> []) ctgs)"
  unfolding prune_ctgs_def by (induction ctgs) auto

lemma map_of_prune_ctgs:
  assumes "distinct (map fst ctgs)"
  shows "map_of (prune_ctgs E self ctgs) c =
     (case map_of ctgs c of None \<Rightarrow> None
      | Some g \<Rightarrow> if filtered E self g \<noteq> [] then Some (filtered E self g) else None)"
  unfolding prune_ctgs_alt
  by (simp add: map_of_map_entry map_of_filter_distinct [OF assms] split: option.splits)

lemma map_of_filtered_report:
  assumes "wf_report rep"
  shows "map_of (filtered_report E self rep) r =
     (case map_of rep r of None \<Rightarrow> None
      | Some ctgs \<Rightarrow>
          if ctgs = [] \<or> prune_ctgs E self ctgs \<noteq> [] then Some (prune_ctgs E self ctgs) else None)"
proof -
  from assms have d: "distinct (map fst rep)" by (simp add: wf_report_def)
  show ?thesis
    unfolding filtered_report_def
    by (simp add: map_of_map_entry map_of_filter_distinct [OF d] split: option.splits)
qed

lemma wf_filtered_report:
  assumes "wf_report rep"
  shows "wf_report (filtered_report E self rep)"
proof -
  have k: "map fst (filtered_report E self rep) =
      map fst (filter (\<lambda>(r, ctgs). ctgs = [] \<or> prune_ctgs E self ctgs \<noteq> []) rep)"
    by (simp add: filtered_report_def case_prod_unfold)
  have "distinct (map fst (filtered_report E self rep))"
    unfolding k using assms by (simp add: wf_report_def distinct_map_filter)
  moreover have "distinct (map fst (prune_ctgs E self ctgs))" if "distinct (map fst ctgs)" for ctgs
  proof -
    have "map fst (prune_ctgs E self ctgs) = map fst (filter (\<lambda>(c, g). filtered E self g \<noteq> []) ctgs)"
      unfolding prune_ctgs_alt by (simp add: case_prod_unfold)
    with that show ?thesis by (simp add: distinct_map_filter)
  qed
  ultimately show ?thesis
    using assms by (auto simp: wf_report_def filtered_report_def)
qed

text \<open>The entries of the filtered report, read back to the entries they come from.\<close>

lemma filtered_report_entry:
  assumes "(r, ctgs') \<in> set (filtered_report E self rep)"
  shows "\<exists>ctgs. (r, ctgs) \<in> set rep \<and> ctgs' = prune_ctgs E self ctgs \<and>
           (ctgs = [] \<or> prune_ctgs E self ctgs \<noteq> [])"
  using assms by (auto simp: filtered_report_def)

lemma prune_ctgs_entry:
  assumes "(c, g') \<in> set (prune_ctgs E self ctgs)"
  shows "\<exists>g. (c, g) \<in> set ctgs \<and> g' = filtered E self g \<and> g' \<noteq> []"
  using assms by (auto simp: prune_ctgs_def)

lemma all_returnD:
  "all_return E self rep \<Longrightarrow> (r, ctgs) \<in> set rep \<Longrightarrow> (c, g) \<in> set ctgs \<Longrightarrow> returns E self g"
  by (auto simp: all_return_def)

lemma classifiable_both: "passes_both E self d \<Longrightarrow> classifiable E self d"
  by (simp add: passes_both_def classifiable_def)

lemma non_essential_of_essential_only:
  assumes "classifiable E self d" and "passes_essential E self d" and "\<not> passes_both E self d"
  shows "report_dict_passes_non_essential_filters self d = Inr False"
proof -
  from assms(1,2) obtain c where c: "report_dict_passes_non_essential_filters self d = Inr c"
    by (auto simp: classifiable_iff passes_essential_def)
  with assms(2,3) show ?thesis by (cases c) (simp_all add: passes_both_iff)
qed

lemma blank_essential_only:
  assumes "essential_keys_kept E" and "classifiable E self d"
    and "passes_essential E self d" and "\<not> passes_both E self d"
  shows "passes_essential E self (blank_var_columns E d)"
    and "\<not> passes_both E self (blank_var_columns E d)"
    and "classifiable E self (blank_var_columns E d)"
proof -
  have ne: "report_dict_passes_non_essential_filters self (blank_var_columns E d) = Inr False"
    using assms(2-4) by (intro non_essential_blank non_essential_of_essential_only)
  show e: "passes_essential E self (blank_var_columns E d)"
    using assms(1,3) by (simp add: passes_essential_def essential_blank)
  show "\<not> passes_both E self (blank_var_columns E d)"
    by (simp add: passes_both_iff ne)
  show "classifiable E self (blank_var_columns E d)"
    using e ne by (auto simp: classifiable_iff passes_essential_def)
qed

lemma filtered_fixed:
  assumes ret: "returns E self g" and keep: "essential_keys_kept E"
  shows "returns E self (filtered E self g) \<and> filtered E self (filtered E self g) = filtered E self g"
proof -
  from ret have cl: "\<forall>d\<in>set g. classifiable E self d" by (simp add: returns_iff)
  from filtered_cases [OF ret] consider
    (pass) "filter (passes_both E self) g \<noteq> []" "filtered E self g = filter (passes_both E self) g"
    | (none) "filtered E self g = []"
    | (demoted) d where "d \<in> set g" "passes_essential E self d" "\<not> passes_both E self d"
        "filtered E self g = [blank_var_columns E d]"
    by blast
  then show ?thesis
  proof cases
    case pass
    let ?g' = "filter (passes_both E self) g"
    have r': "returns E self ?g'" by (simp add: returns_iff classifiable_both)
    have "filter (passes_both E self) ?g' = ?g'" by simp
    with pass(1) have "filtered E self ?g' = ?g'" by (simp add: filtered_eq [OF r'])
    with r' pass(2) show ?thesis by simp
  next
    case none
    have "returns E self []" by (simp add: returns_iff)
    moreover have "filtered E self [] = []" by (simp add: filtered_def filter_list_of_dicts_def)
    ultimately show ?thesis by (simp add: none)
  next
    case demoted
    let ?b = "blank_var_columns E d"
    from cl demoted(1) have cd: "classifiable E self d" by blast
    note b = blank_essential_only [OF keep cd demoted(2,3)]
    have r': "returns E self [?b]" using b(3) by (simp add: returns_iff)
    have "filtered E self [?b] = [?b]"
      using b(1,2) by (simp add: filtered_eq [OF r'] blank_blank)
    with r' demoted(4) show ?thesis by simp
  qed
qed

lemma prune_ctgs_fixed:
  assumes "\<forall>(c, g)\<in>set ctgs. filtered E self g = g \<and> g \<noteq> []"
  shows "prune_ctgs E self ctgs = ctgs"
proof -
  have "map (\<lambda>(c, g). (c, filtered E self g)) ctgs = ctgs"
    using assms by (intro map_idI) auto
  moreover have "filter (\<lambda>(c, g'). g' \<noteq> []) ctgs = ctgs"
    using assms by (intro filter_True) auto
  ultimately show ?thesis by (simp add: prune_ctgs_def)
qed

lemma filtered_report_fixed:
  assumes "\<forall>(r, ctgs)\<in>set rep. \<forall>(c, g)\<in>set ctgs. filtered E self g = g \<and> g \<noteq> []"
  shows "filtered_report E self rep = rep"
proof -
  have p: "prune_ctgs E self ctgs = ctgs" if "(r, ctgs) \<in> set rep" for r ctgs
    using assms that by (intro prune_ctgs_fixed) auto
  have "filter (\<lambda>(r, ctgs). ctgs = [] \<or> prune_ctgs E self ctgs \<noteq> []) rep = rep"
    using p by (intro filter_True) auto
  moreover have "map (\<lambda>(r, ctgs). (r, prune_ctgs E self ctgs)) rep = rep"
    using p by (intro map_idI) auto
  ultimately show ?thesis by (simp add: filtered_report_def)
qed

lemma filtered_report_groups:
  assumes "all_return E self rep" and "essential_keys_kept E"
    and "(r, ctgs') \<in> set (filtered_report E self rep)" and "(c, g') \<in> set ctgs'"
  shows "g' \<noteq> [] \<and> returns E self g' \<and> filtered E self g' = g' \<and>
         (\<forall>d\<in>set g'. passes_essential E self d)"
proof -
  from assms(3) obtain ctgs where ctgs: "(r, ctgs) \<in> set rep" "ctgs' = prune_ctgs E self ctgs"
    using filtered_report_entry by blast
  from assms(4) obtain g where g: "(c, g) \<in> set ctgs" "g' = filtered E self g" "g' \<noteq> []"
    unfolding ctgs(2) using prune_ctgs_entry by blast
  from assms(1) ctgs(1) g(1) have ret: "returns E self g" by (rule all_returnD)
  have cl: "\<forall>d\<in>set g. classifiable E self d" using ret by (simp add: returns_iff)
  have "passes_essential E self d'" if "d' \<in> set g'" for d'
  proof -
    from filtered_member [OF ret] that obtain d where
      d: "d \<in> set g" "passes_essential E self d"
        "(d' = d \<and> passes_both E self d) \<or> (d' = blank_var_columns E d \<and> \<not> passes_both E self d)"
      unfolding g(2) by blast
    from cl d(1) have "classifiable E self d" by blast
    with d(2,3) blank_essential_only(1) [OF assms(2)] show ?thesis by blast
  qed
  with filtered_fixed [OF ret assms(2)] g show ?thesis by simp
qed

text \<open>What holds of the report after a filter run that returns.\<close>

lemma filter_dicts_invariant:
  assumes wf: "wf_report (report self)"
    and keep: "essential_keys_kept E"
    and run: "filter_dicts E self = Inr self'"
  shows "wf_report (report self')"
    and "\<forall>(r, ctgs)\<in>set (report self'). \<forall>(c, g)\<in>set ctgs.
           g \<noteq> [] \<and> (\<forall>d\<in>set g. passes_essential E self' d)"
    and "(\<forall>(r, ctgs)\<in>set (report self). ctgs \<noteq> []) \<Longrightarrow> \<forall>(r, ctgs)\<in>set (report self'). ctgs \<noteq> []"
proof -
  from wf run have ar: "all_return E self (report self)"
    and s': "self' = self\<lparr>report := filtered_report E self (report self)\<rparr>"
    by (simp_all add: filter_dicts_Inr_iff)
  show "wf_report (report self')" unfolding s' using wf by (simp add: wf_filtered_report)
  show "\<forall>(r, ctgs)\<in>set (report self'). \<forall>(c, g)\<in>set ctgs.
           g \<noteq> [] \<and> (\<forall>d\<in>set g. passes_essential E self' d)"
    unfolding s' using filtered_report_groups [OF ar keep] by fastforce
  show "\<forall>(r, ctgs)\<in>set (report self'). ctgs \<noteq> []"
    if "\<forall>(r, ctgs)\<in>set (report self). ctgs \<noteq> []"
    unfolding s' using that by (auto dest!: filtered_report_entry)
qed

lemma set_update_subset: "set (AList.update k v al) \<subseteq> insert (k, v) (set al)"
  by (induction al) auto

lemma add_line_dict_eq:
  assumes "add_line_dict rep d = Inr rep'"
  shows "\<exists>ref_name ctg_name ctgs rows.
           (ctgs = [] \<or> (ref_name, ctgs) \<in> set rep) \<and>
           (rows = [] \<or> (ctg_name, rows) \<in> set ctgs) \<and>
           rep' = AList.update ref_name (AList.update ctg_name (rows @ [d]) ctgs) rep"
proof -
  from assms obtain ref_name ctg_name where
    k: "getitem d ''ref_name'' = Inr ref_name" "getitem d ''ctg'' = Inr ctg_name"
    by (auto simp: add_line_dict_def then_do_def split: sum.splits)
  define ctgs where "ctgs = (case map_of rep ref_name of None \<Rightarrow> [] | Some x \<Rightarrow> x)"
  define rows where "rows = (case map_of ctgs ctg_name of None \<Rightarrow> [] | Some x \<Rightarrow> x)"
  have c: "ctgs = [] \<or> (ref_name, ctgs) \<in> set rep"
    by (auto simp: ctgs_def split: option.splits dest: map_of_SomeD)
  have r: "rows = [] \<or> (ctg_name, rows) \<in> set ctgs"
    by (auto simp: rows_def split: option.splits dest: map_of_SomeD)
  have "rep' = AList.update ref_name (AList.update ctg_name (rows @ [d]) ctgs) rep"
    using assms k
    by (auto simp: add_line_dict_def then_do_def getitem_def Let_def ctgs_def rows_def
        update_conv' split: option.splits if_splits)
  with c r show ?thesis by blast
qed

lemma add_line_dict_inv:
  assumes "loaded_inv rep" and "add_line_dict rep d = Inr rep'"
  shows "loaded_inv rep'"
proof -
  from add_line_dict_eq [OF assms(2)] obtain ref_name ctg_name ctgs rows where
    c: "ctgs = [] \<or> (ref_name, ctgs) \<in> set rep"
    and r: "rows = [] \<or> (ctg_name, rows) \<in> set ctgs"
    and rep': "rep' = AList.update ref_name (AList.update ctg_name (rows @ [d]) ctgs) rep"
    by blast
  let ?new = "AList.update ctg_name (rows @ [d]) ctgs"
  from assms(1) c have dc: "distinct (map fst ctgs)" and ne: "\<forall>(c, g)\<in>set ctgs. g \<noteq> []"
    by (auto simp: loaded_inv_def wf_report_def)
  have n1: "distinct (map fst ?new)" using dc by (rule distinct_update)
  have n2: "?new \<noteq> []" by simp
  have n3: "\<forall>(c, g)\<in>set ?new. g \<noteq> []"
    using ne set_update_subset [of ctg_name "rows @ [d]" ctgs] by auto
  have "distinct (map fst rep')"
    unfolding rep' using assms(1) by (simp add: loaded_inv_def wf_report_def distinct_update)
  moreover have "\<forall>(r, ctgs)\<in>set rep'. distinct (map fst ctgs) \<and> ctgs \<noteq> [] \<and> (\<forall>(c, g)\<in>set ctgs. g \<noteq> [])"
  proof (clarify)
    fix r cs assume "(r, cs) \<in> set rep'"
    then have "(r, cs) = (ref_name, ?new) \<or> (r, cs) \<in> set rep"
      unfolding rep' using set_update_subset [of ref_name ?new rep] by auto
    then show "distinct (map fst cs) \<and> cs \<noteq> [] \<and> (\<forall>(c, g)\<in>set cs. g \<noteq> [])"
      using n1 n2 n3 assms(1) by (auto simp: loaded_inv_def wf_report_def)
  qed
  ultimately show ?thesis by (auto simp: loaded_inv_def wf_report_def)
qed

lemma load_lines_inv:
  "loaded_inv rep \<Longrightarrow> load_lines E ls fl rep = Inr rep' \<Longrightarrow> loaded_inv rep'"
proof (induction ls arbitrary: fl rep)
  case Nil
  then show ?case by simp
next
  case (Cons l ls)
  show ?case
  proof (cases fl)
    case True
    with Cons.prems show ?thesis
      by (auto simp: Let_def split: if_splits intro: Cons.IH)
  next
    case False
    with Cons.prems obtain d rep1 where
      "add_line_dict rep d = Inr rep1" "load_lines E ls False rep1 = Inr rep'"
      by (auto simp: Let_def split: sum.splits option.splits)
    with Cons.prems(1) Cons.IH add_line_dict_inv show ?thesis by blast
  qed
qed

lemma load_report_inv:
  assumes "load_report E f = Inr rep"
  shows "loaded_inv rep"
proof -
  have "loaded_inv []" by (simp add: loaded_inv_def wf_report_def)
  then show ?thesis using assms load_lines_inv unfolding load_report_def by blast
qed

lemma example_load: "load_report example_env example_file = Inr example_report"
  by (simp add: load_simps example_file_def example_report_def R1_def R3_def R4_def example_row_def)

lemma example_groups:
  "filter_list_of_dicts example_env loaded_filter [R1, R3] = Inr [R1_demoted]"
  "filter_list_of_dicts example_env loaded_filter [R4] = Inr []"
proof -
  have e: "report_dict_passes_essential_filters example_env loaded_filter R1 = Inr True"
    "report_dict_passes_essential_filters example_env loaded_filter R3 = Inr False"
    "report_dict_passes_essential_filters example_env loaded_filter R4 = Inr False"
    "report_dict_passes_non_essential_filters loaded_filter R1 = Inr False"
    by (simp_all add: example_simps loaded_filter_def R4_def)
  have b: "blank_var_columns example_env R1 = R1_demoted"
    by (simp add: blank_var_columns_def example_env_def R1_def R1_demoted_def example_row_def)
  show "filter_list_of_dicts example_env loaded_filter [R1, R3] = Inr [R1_demoted]"
    by (simp add: filter_list_of_dicts_def e b)
  show "filter_list_of_dicts example_env loaded_filter [R4] = Inr []"
    by (simp add: filter_list_of_dicts_def e)
qed

lemma example_run: "filter_dicts example_env loaded_filter = Inr filtered_filter"
proof -
  have r: "report loaded_filter = example_report" by (simp add: loaded_filter_def)
  have fin: "loaded_filter\<lparr>report := [(VStr ''ref1'', [(VStr ''ctg1'', [R1_demoted])])]\<rparr> =
      filtered_filter"
    by (simp add: loaded_filter_def filtered_filter_def)
  show ?thesis
    unfolding filter_dicts_def r
    by (simp add: example_report_def example_groups getitem_def delitem_def fin)
qed

lemma example_wf: "wf_report (report loaded_filter)"
  by (simp add: wf_report_def loaded_filter_def example_report_def)

lemma example_keep: "essential_keys_kept example_env"
  by (simp add: essential_keys_kept_def example_env_def)

lemma example_loaded: "load_report example_env example_file = Inr (report loaded_filter)"
  by (simp add: example_load loaded_filter_def)

lemma example_filtered_report:
  "report filtered_filter = [(VStr ''ref1'', [(VStr ''ctg1'', [R1_demoted])])]"
  by (simp add: filtered_filter_def)

lemma example_lookups:
  "map_of (report loaded_filter) (VStr ''ref1'') = Some [(VStr ''ctg1'', [R1, R3])]"
  "map_of (report loaded_filter) (VStr ''ref2'') = Some [(VStr ''ctg9'', [R4])]"
  "map_of (report filtered_filter) (VStr ''ref1'') = Some [(VStr ''ctg1'', [R1_demoted])]"
  by (simp_all add: loaded_filter_def filtered_filter_def example_report_def)

lemma R4_fails: "\<not> passes_essential example_env loaded_filter R4"
  by (simp add: passes_essential_def example_simps loaded_filter_def R4_def)

text \<open>The same file and the same run under the second instance of the tables.\<close>

lemma variant_load: "load_report variant_env example_file = Inr (report loaded_filter)"
  by (simp add: load_simps variant_env_def example_file_def example_report_def loaded_filter_def
      R1_def R3_def R4_def example_row_def)

lemma variant_groups:
  "filter_list_of_dicts variant_env loaded_filter [R1, R3] = Inr [R1_blanked]"
  "filter_list_of_dicts variant_env loaded_filter [R4] = Inr []"
proof -
  have e: "report_dict_passes_essential_filters variant_env loaded_filter R1 = Inr True"
    "report_dict_passes_essential_filters variant_env loaded_filter R3 = Inr False"
    "report_dict_passes_essential_filters variant_env loaded_filter R4 = Inr False"
    "report_dict_passes_non_essential_filters loaded_filter R1 = Inr False"
    by (simp_all add: example_simps variant_env_def loaded_filter_def R4_def)
  have b: "blank_var_columns variant_env R1 = R1_blanked"
    by (simp add: blank_var_columns_def variant_env_def example_env_def R1_def R1_blanked_def
        example_row_def)
  show "filter_list_of_dicts variant_env loaded_filter [R1, R3] = Inr [R1_blanked]"
    by (simp add: filter_list_of_dicts_def e b)
  show "filter_list_of_dicts variant_env loaded_filter [R4] = Inr []"
    by (simp add: filter_list_of_dicts_def e)
qed

lemma variant_run: "filter_dicts variant_env loaded_filter = Inr blanked_filter"
proof -
  have r: "report loaded_filter = example_report" by (simp add: loaded_filter_def)
  have fin: "loaded_filter\<lparr>report := [(VStr ''ref1'', [(VStr ''ctg1'', [R1_blanked])])]\<rparr> =
      blanked_filter"
    by (simp add: loaded_filter_def blanked_filter_def)
  show ?thesis
    unfolding filter_dicts_def r
    by (simp add: example_report_def variant_groups getitem_def delitem_def fin)
qed

lemma variant_lookup:
  "map_of (report blanked_filter) (VStr ''ref1'') = Some [(VStr ''ctg1'', [R1_blanked])]"
  by (simp add: blanked_filter_def)



section \<open>The claims about the whole report\<close>

text \<open>
  Claim C3. Take a report as \<^verbatim>\<open>_load_report\<close> builds it and a run of
  \<^verbatim>\<open>_filter_dicts\<close> on it that returns. Afterwards every reference name left in the
  report has a contig dictionary that is not empty, every contig name left has a list of rows
  that is not empty, and every row left satisfies the essential predicate. (A group is absent
  when its contig name, or its reference name, is no longer a key.)
\<close>

theorem filtered_groups_nonempty_and_essential:
  assumes "load_report E f = Inr (report self)"
    and "essential_keys_kept E"
    and "filter_dicts E self = Inr self'"
  shows "\<forall>(r, ctgs)\<in>set (report self'). ctgs \<noteq> [] \<and>
           (\<forall>(c, g)\<in>set ctgs. g \<noteq> [] \<and> (\<forall>d\<in>set g. passes_essential E self' d))"
proof -
  from assms(1) have inv: "loaded_inv (report self)" by (rule load_report_inv)
  then have wf: "wf_report (report self)" and ne: "\<forall>(r, ctgs)\<in>set (report self). ctgs \<noteq> []"
    by (auto simp: loaded_inv_def)
  from filter_dicts_invariant(2) [OF wf assms(2,3)] filter_dicts_invariant(3) [OF wf assms(2,3) ne]
  show ?thesis by fastforce
qed

theorem filtered_groups_nonempty_and_essential_witness:
  "load_report example_env example_file = Inr (report loaded_filter) \<and>
   filter_dicts example_env loaded_filter = Inr filtered_filter \<and>
   report filtered_filter = [(VStr ''ref1'', [(VStr ''ctg1'', [R1_demoted])])] \<and>
   passes_essential example_env filtered_filter R1_demoted"
proof -
  from filtered_groups_nonempty_and_essential [OF example_loaded example_keep example_run]
  have p: "passes_essential example_env filtered_filter R1_demoted"
    unfolding example_filtered_report by simp
  from example_loaded example_run example_filtered_report p show ?thesis by blast
qed


text \<open>
  Claim C4. If no row of the group at \<open>(r, c)\<close> satisfies the essential predicate, then after a
  run of \<^verbatim>\<open>_filter_dicts\<close> that returns, \<open>c\<close> is not a key under \<open>r\<close>; and if \<open>c\<close> was the
  only contig under \<open>r\<close>, then \<open>r\<close> is not a key of the report.
\<close>

theorem all_failing_group_removed:
  assumes "wf_report (report self)"
    and "filter_dicts E self = Inr self'"
    and "map_of (report self) r = Some ctgs"
    and "map_of ctgs c = Some g"
    and "\<forall>d\<in>set g. \<not> passes_essential E self d"
  shows "(\<forall>ctgs'. map_of (report self') r = Some ctgs' \<longrightarrow> map_of ctgs' c = None) \<and>
         (map fst ctgs = [c] \<longrightarrow> map_of (report self') r = None)"
proof -
  from assms(1,2) have ar: "all_return E self (report self)"
    and s': "self' = self\<lparr>report := filtered_report E self (report self)\<rparr>"
    by (simp_all add: filter_dicts_Inr_iff)
  from assms(3) have mr: "(r, ctgs) \<in> set (report self)" by (rule map_of_SomeD)
  from assms(4) have mc: "(c, g) \<in> set ctgs" by (rule map_of_SomeD)
  from ar mr mc have ret: "returns E self g" by (rule all_returnD)
  from assms(5) have "filter (passes_essential E self) g = []" "filter (passes_both E self) g = []"
    by (auto simp: filter_empty_conv passes_both_iff)
  then have fg: "filtered E self g = []" by (simp add: filtered_eq [OF ret])
  from assms(1) mr have dc: "distinct (map fst ctgs)" by (auto simp: wf_report_def)
  have pc: "map_of (prune_ctgs E self ctgs) c = None"
    by (simp add: map_of_prune_ctgs [OF dc] assms(4) fg)
  have rep': "map_of (report self') r =
      (if ctgs = [] \<or> prune_ctgs E self ctgs \<noteq> [] then Some (prune_ctgs E self ctgs) else None)"
    unfolding s' by (simp add: map_of_filtered_report [OF assms(1)] assms(3))
  have one: "map_of (report self') r = None" if "map fst ctgs = [c]"
  proof -
    from that mc have "ctgs = [(c, g)]" by (cases ctgs) auto
    then have "ctgs \<noteq> []" "prune_ctgs E self ctgs = []" by (simp_all add: prune_ctgs_def fg)
    then show ?thesis by (simp add: rep')
  qed
  from pc rep' one show ?thesis by (auto split: if_splits)
qed

theorem all_failing_group_removed_witness:
  "filter_dicts example_env loaded_filter = Inr filtered_filter \<and>
   map_of (report loaded_filter) (VStr ''ref2'') = Some [(VStr ''ctg9'', [R4])] \<and>
   \<not> passes_essential example_env loaded_filter R4 \<and>
   map_of (report filtered_filter) (VStr ''ref2'') = None"
proof -
  have g: "map_of [(VStr ''ctg9'', [R4])] (VStr ''ctg9'') = Some [R4]" by simp
  have a: "\<forall>d\<in>set [R4]. \<not> passes_essential example_env loaded_filter d"
    using R4_fails by simp
  from all_failing_group_removed [OF example_wf example_run example_lookups(2) g a]
  have n: "map_of (report filtered_filter) (VStr ''ref2'') = None" by simp
  from example_run example_lookups(2) R4_fails n show ?thesis by blast
qed


text \<open>
  Claim C6. A second run of \<^verbatim>\<open>_filter_dicts\<close> on the result of a first one, with the same
  settings, returns and leaves the report as the first run left it.
\<close>

theorem filter_dicts_idempotent:
  assumes wf: "wf_report (report self)"
    and keep: "essential_keys_kept E"
    and run: "filter_dicts E self = Inr self'"
  shows "filter_dicts E self' = Inr self'"
proof -
  from wf run have ar: "all_return E self (report self)"
    and s': "self' = self\<lparr>report := filtered_report E self (report self)\<rparr>"
    by (simp_all add: filter_dicts_Inr_iff)
  let ?rep' = "filtered_report E self (report self)"
  have rep': "report self' = ?rep'" by (simp add: s')
  have wf': "wf_report (report self')" unfolding rep' using wf by (rule wf_filtered_report)
  note G = filtered_report_groups [OF ar keep]
  have ar': "all_return E self' (report self')"
    unfolding rep' s' all_return_def using G by fastforce
  have "filtered_report E self' (report self') = report self'"
  proof -
    have "filtered_report E self' ?rep' = filtered_report E self ?rep'"
      by (simp add: s' filtered_report_def prune_ctgs_def)
    also have "\<dots> = ?rep'" using G by (intro filtered_report_fixed) fastforce
    finally show ?thesis by (simp only: rep')
  qed
  with filter_dicts_closed [OF wf' ar'] show ?thesis by simp
qed

theorem filter_dicts_idempotent_witness:
  "filter_dicts example_env loaded_filter = Inr filtered_filter \<and>
   filter_dicts example_env filtered_filter = Inr filtered_filter"
  using filter_dicts_idempotent [OF example_wf example_keep example_run] example_run by blast


text \<open>
  Claim C9 as it is worded names \<^verbatim>\<open>has_known_var\<close> among the fields that no run changes.
  Under the second instance of the tables this fails: the file loads, the group of \<open>ref1\<close>
  holds two rows whose \<^verbatim>\<open>has_known_var\<close> is \<^verbatim>\<open>0\<close>, and the one row left after the run,
  the demoted first row, has the sentinel there.
\<close>

theorem has_known_var_blanked_on_demotion:
  "load_report variant_env example_file = Inr (report loaded_filter) \<and>
   map_of (report loaded_filter) (VStr ''ref1'') = Some [(VStr ''ctg1'', [R1, R3])] \<and>
   map_of R1 ''has_known_var'' = Some (VStr ''0'') \<and>
   map_of R3 ''has_known_var'' = Some (VStr ''0'') \<and>
   filter_dicts variant_env loaded_filter = Inr blanked_filter \<and>
   report blanked_filter = [(VStr ''ref1'', [(VStr ''ctg1'', [R1_blanked])])] \<and>
   map_of R1_blanked ''has_known_var'' = Some (VStr ''.'') \<and>
   map_of R1_blanked ''has_known_var'' \<noteq> map_of R1 ''has_known_var'' \<and>
   map_of R1_blanked ''has_known_var'' \<noteq> map_of R3 ''has_known_var''"
proof -
  have a: "map_of R1 ''has_known_var'' = Some (VStr ''0'')"
    "map_of R3 ''has_known_var'' = Some (VStr ''0'')"
    "map_of R1_blanked ''has_known_var'' = Some (VStr ''.'')"
    by (simp_all add: R1_def R3_def R1_blanked_def example_row_def)
  have b: "report blanked_filter = [(VStr ''ref1'', [(VStr ''ctg1'', [R1_blanked])])]"
    by (simp add: blanked_filter_def)
  have c: "map_of R1_blanked ''has_known_var'' \<noteq> map_of R1 ''has_known_var''"
    "map_of R1_blanked ''has_known_var'' \<noteq> map_of R3 ''has_known_var''"
    by (simp_all add: a)
  from variant_load example_lookups(1) a variant_run b c show ?thesis by blast
qed

text \<open>
  Claim C9, amended. Every row of the filtered report is a row \<open>d\<close> of the same group before
  the run: either \<open>d\<close> itself, or \<open>d\<close> with the columns of \<^verbatim>\<open>report.var_columns\<close> set to the
  sentinel, and then it is the only row of its group. In both cases every column outside
  \<^verbatim>\<open>report.var_columns\<close> has the value it had before the run; these are the reference name,
  the contig name, the flag, the percent identity and the reference bases assembled whenever
  the table lists none of them. Nothing is said of \<^verbatim>\<open>has_known_var\<close> beyond that.
\<close>

theorem filter_changes_only_var_columns:
  assumes "wf_report (report self)"
    and "filter_dicts E self = Inr self'"
    and "map_of (report self') r = Some ctgs'"
    and "map_of ctgs' c = Some g'"
    and "d' \<in> set g'"
  shows "\<exists>ctgs g d. map_of (report self) r = Some ctgs \<and> map_of ctgs c = Some g \<and> d \<in> set g \<and>
           (d' = d \<or> (d' = blank_var_columns E d \<and> g' = [d'])) \<and>
           (\<forall>k. k \<notin> set (var_columns E) \<longrightarrow> map_of d' k = map_of d k) \<and>
           (set kept_fields \<inter> set (var_columns E) = {} \<longrightarrow>
              (\<forall>k\<in>set kept_fields. map_of d' k = map_of d k))"
proof -
  from assms(1,2) have ar: "all_return E self (report self)"
    and s': "self' = self\<lparr>report := filtered_report E self (report self)\<rparr>"
    by (simp_all add: filter_dicts_Inr_iff)
  from assms(3) have "(r, ctgs') \<in> set (filtered_report E self (report self))"
    unfolding s' by (auto dest: map_of_SomeD)
  then obtain ctgs where ctgs: "(r, ctgs) \<in> set (report self)" "ctgs' = prune_ctgs E self ctgs"
    using filtered_report_entry by blast
  from assms(4) have "(c, g') \<in> set (prune_ctgs E self ctgs)"
    unfolding ctgs(2) by (rule map_of_SomeD)
  then obtain g where g: "(c, g) \<in> set ctgs" "g' = filtered E self g"
    using prune_ctgs_entry by blast
  from ar ctgs(1) g(1) have ret: "returns E self g" by (rule all_returnD)
  from filtered_member [OF ret] assms(5) obtain d where
    d: "d \<in> set g" "d' = d \<or> (d' = blank_var_columns E d \<and> g' = [d'])"
    unfolding g(2) by auto
  from assms(1) ctgs(1) have m1: "map_of (report self) r = Some ctgs"
    by (simp add: wf_report_def)
  from assms(1) ctgs(1) g(1) have m2: "map_of ctgs c = Some g"
    by (auto simp: wf_report_def)
  have k: "\<forall>k. k \<notin> set (var_columns E) \<longrightarrow> map_of d' k = map_of d k"
    using d(2) by (auto simp: map_of_blank_var_columns)
  then have "set kept_fields \<inter> set (var_columns E) = {} \<longrightarrow>
      (\<forall>k\<in>set kept_fields. map_of d' k = map_of d k)"
    by blast
  with m1 m2 d k show ?thesis by blast
qed

theorem filter_changes_only_var_columns_witness:
  "filter_dicts variant_env loaded_filter = Inr blanked_filter \<and>
   (\<exists>d\<in>set [R1, R3]. R1_blanked = blank_var_columns variant_env d \<and>
      map_of R1_blanked ''ref_name'' = map_of d ''ref_name'' \<and>
      map_of R1_blanked ''ctg'' = map_of d ''ctg'' \<and>
      map_of R1_blanked ''flag'' = map_of d ''flag'' \<and>
      map_of R1_blanked ''pc_ident'' = map_of d ''pc_ident'' \<and>
      map_of R1_blanked ''ref_base_assembled'' = map_of d ''ref_base_assembled'')"
proof -
  have g: "map_of [(VStr ''ctg1'', [R1_blanked])] (VStr ''ctg1'') = Some [R1_blanked]" by simp
  have m: "R1_blanked \<in> set [R1_blanked]" by simp
  have v: "set kept_fields \<inter> set (var_columns variant_env) = {}"
    by (simp add: kept_fields_def variant_env_def)
  have ne: "R1_blanked \<noteq> R1" "R1_blanked \<noteq> R3"
    by (simp_all add: R1_blanked_def R1_def R3_def example_row_def)
  from filter_changes_only_var_columns [OF example_wf variant_run variant_lookup g m]
  obtain ctgs g d where o: "map_of (report loaded_filter) (VStr ''ref1'') = Some ctgs"
    "map_of ctgs (VStr ''ctg1'') = Some g" "d \<in> set g"
    "R1_blanked = d \<or> (R1_blanked = blank_var_columns variant_env d \<and> [R1_blanked] = [R1_blanked])"
    "set kept_fields \<inter> set (var_columns variant_env) = {} \<longrightarrow>
       (\<forall>k\<in>set kept_fields. map_of R1_blanked k = map_of d k)"
    by blast
  from o(1) have "ctgs = [(VStr ''ctg1'', [R1, R3])]" by (simp add: example_lookups(1))
  with o(2) have "g = [R1, R3]" by simp
  with o(3) have d: "d \<in> set [R1, R3]" by simp
  with ne o(4) have b: "R1_blanked = blank_var_columns variant_env d" by auto
  from o(5) v have "\<forall>k\<in>set kept_fields. map_of R1_blanked k = map_of d k" by blast
  then have e: "map_of R1_blanked ''ref_name'' = map_of d ''ref_name''"
    "map_of R1_blanked ''ctg'' = map_of d ''ctg''"
    "map_of R1_blanked ''flag'' = map_of d ''flag''"
    "map_of R1_blanked ''pc_ident'' = map_of d ''pc_ident''"
    "map_of R1_blanked ''ref_base_assembled'' = map_of d ''ref_base_assembled''"
    by (simp_all add: kept_fields_def)
  from variant_run d b e show ?thesis by blast
qed


end
